theory Spec2Isabelle
  imports Main
begin

section \<open>Values, errors and effects\<close>

text \<open>
  The warehouse domain of \<^verbatim>\<open>final_warehouse_robot.py\<close>. Python exceptions are values:
  indexing a dictionary at a missing key raises \<open>KeyError\<close>, \<open>len(False)\<close> raises
  \<open>TypeError\<close>, \<open>list.remove\<close> of an absent element raises \<open>ValueError\<close>, indexing a
  list out of range raises \<open>IndexError\<close>.
\<close>

datatype error = KeyError | TypeError | ValueError | IndexError

text \<open>
  \<open>rigid_relations.types\<close> is a dictionary literal with the keys \<open>'robot'\<close>, \<open>'object'\<close>,
  \<open>'loc'\<close> and \<open>'charging_stations'\<close>; it is only ever indexed with these literals and is
  never assigned to, so it is a total function on the four names.
  \<open>rigid_relations.adjacent\<close> is a dictionary whose keys are pairs of rooms and whose values
  are all \<open>True\<close>: the list of its keys, in insertion order.
\<close>

datatype type_name = Robot | Object | Location | Charging_stations

record rigid_relations =
  types :: "type_name \<Rightarrow> string list"
  adjacent :: "(string \<times> string) list"

text \<open>
  A planning state holds three dictionaries. \<open>loc\<close> maps a robot to its room and a
  container to its room, or to the robot that carries it.
\<close>

record state =
  loc :: "string \<rightharpoonup> string"
  cargo :: "string \<rightharpoonup> string list"
  battery :: "string \<rightharpoonup> int"

text \<open>
  A call receives the global \<open>rigid_relations\<close> and a state object that it may mutate in
  place. Its effect is what it returned (or the exception it raised) together with the
  rigid relations and the state object as the call left them.
\<close>

datatype ('r, 'g, 's) effect =
  Effect (returned: "error + 'r") (rigid_after: 'g) (state_after: 's)

definition lookup :: "('k \<rightharpoonup> 'v) \<Rightarrow> 'k \<Rightarrow> error + 'v" where
  "lookup d k = (case d k of None \<Rightarrow> Inl KeyError | Some v \<Rightarrow> Inr v)"

definition COST_PER_MOVE :: int where
  "COST_PER_MOVE = 20"

definition FULL_BATTERY :: int where
  "FULL_BATTERY = 100"

section \<open>Helpers\<close>

definition is_adjacent :: "rigid_relations \<Rightarrow> string \<Rightarrow> string \<Rightarrow> bool" where
  "is_adjacent rr room_x room_y =
     (let val1 = (room_x, room_y) \<in> set (adjacent rr);
          val2 = (room_y, room_x) \<in> set (adjacent rr)
      in val1 \<or> val2)"

definition is_a :: "rigid_relations \<Rightarrow> string \<Rightarrow> type_name \<Rightarrow> bool" where
  "is_a rr variable ty = (variable \<in> set (types rr ty))"

definition is_at :: "state \<Rightarrow> string \<Rightarrow> string \<Rightarrow> error + bool" where
  "is_at s robot room =
     (case lookup (loc s) robot of Inl e \<Rightarrow> Inl e | Inr l \<Rightarrow> Inr (room = l))"

definition is_charging_station :: "rigid_relations \<Rightarrow> string \<Rightarrow> bool" where
  "is_charging_station rr l = (l \<in> set (types rr Charging_stations))"


subsection \<open>The adjacency graph and the two breadth-first searches\<close>

text \<open>
  \<open>get_shortest_path\<close> and \<open>get_all_charging_station\<close> first build a dictionary \<open>G\<close>
  from the adjacency keys: \<open>G[x]\<close> is a dictionary whose keys, in insertion order, are
  the neighbours of \<open>x\<close>. \<open>add_node\<close> is \<open>if x not in G: G[x] = {}\<close> and \<open>add_neighbor\<close>
  is \<open>G[x][y] = True\<close> (on a key \<open>x\<close> that \<open>add_node\<close> has just ensured).
\<close>

type_synonym graph = "(string \<times> string list) list"

definition add_node :: "graph \<Rightarrow> string \<Rightarrow> graph" where
  "add_node G x = (if map_of G x = None then G @ [(x, [])] else G)"

definition add_neighbor :: "graph \<Rightarrow> string \<Rightarrow> string \<Rightarrow> graph" where
  "add_neighbor G x y =
     map (\<lambda>(k, ns). if k = x then (k, if y \<in> set ns then ns else ns @ [y]) else (k, ns)) G"

fun build_graph :: "(string \<times> string) list \<Rightarrow> graph \<Rightarrow> graph" where
  "build_graph [] G = G"
| "build_graph ((x, y) # edges) G =
     build_graph edges (add_neighbor (add_neighbor (add_node (add_node G x) y) x y) y x)"

text \<open>
  The dictionary \<open>visited\<close> of \<open>get_shortest_path\<close> maps a room to the room it was
  reached from (\<open>None\<close> for the start), in insertion order. The \<open>for\<close> loop over the
  neighbours of the dequeued node is \<open>visit_neighbors\<close>.
\<close>

type_synonym parents = "(string \<times> string option) list"

fun visit_neighbors :: "string \<Rightarrow> string list \<Rightarrow> parents \<times> string list \<Rightarrow> parents \<times> string list" where
  "visit_neighbors node [] vq = vq"
| "visit_neighbors node (neighbor # rest) (visited, queue) =
     (if map_of visited neighbor = None
      then visit_neighbors node rest (visited @ [(neighbor, Some node)], queue @ [neighbor])
      else visit_neighbors node rest (visited, queue))"

definition graph_nodes :: "graph \<Rightarrow> string set" where
  "graph_nodes G = (\<Union>(k, ns) \<in> set G. set ns)"

definition search_measure :: "graph \<Rightarrow> string set \<Rightarrow> string list \<Rightarrow> nat" where
  "search_measure G seen queue = 2 * card (graph_nodes G - seen) + length queue"

lemma finite_graph_nodes: "finite (graph_nodes G)"
  by (auto simp: graph_nodes_def)

lemma neighbors_in_graph_nodes: "map_of G node = Some ns \<Longrightarrow> set ns \<subseteq> graph_nodes G"
  by (auto simp: graph_nodes_def dest: map_of_SomeD)

text \<open>
  The inner loops in closed form: they append the neighbours not seen before, each once,
  in the order of the neighbour list. This is what the termination proofs of the two
  \<open>while\<close> loops use: every round dequeues one node and enqueues only unseen ones.
\<close>

fun fresh :: "string set \<Rightarrow> string list \<Rightarrow> string list" where
  "fresh seen [] = []"
| "fresh seen (n # ns) = (if n \<in> seen then fresh seen ns else n # fresh (insert n seen) ns)"

lemma set_fresh: "set (fresh seen ns) = set ns - seen"
  by (induction ns arbitrary: seen) auto

lemma distinct_fresh: "distinct (fresh seen ns)"
  by (induction ns arbitrary: seen) (auto simp: set_fresh)

lemma visit_neighbors_fresh:
  "visit_neighbors node ns (V, Q) =
     (V @ map (\<lambda>n. (n, Some node)) (fresh (fst ` set V) ns), Q @ fresh (fst ` set V) ns)"
proof (induction ns arbitrary: V Q)
  case Nil
  show ?case by simp
next
  case (Cons n ns)
  show ?case
  proof (cases "n \<in> fst ` set V")
    case True
    then have "map_of V n \<noteq> None"
      by (simp add: map_of_eq_None_iff)
    then show ?thesis
      using Cons.IH [of V Q] True by auto
  next
    case False
    then have "map_of V n = None"
      by (simp add: map_of_eq_None_iff)
    moreover have "fst ` set (V @ [(n, Some node)]) = insert n (fst ` set V)"
      by auto
    ultimately show ?thesis
      using Cons.IH [of "V @ [(n, Some node)]" "Q @ [n]"] False by simp
  qed
qed

text \<open>The \<open>for\<close> loop of \<open>get_all_charging_station\<close>; \<open>visited\<close> is used as a set there.\<close>

fun visit_stations :: "string list \<Rightarrow> string list \<Rightarrow> string list \<times> string list \<times> string list \<Rightarrow> string list \<times> string list \<times> string list" where
  "visit_stations cs [] vqs = vqs"
| "visit_stations cs (neighbor # rest) (visited, queue, stations) =
     (if neighbor \<notin> set visited
      then visit_stations cs rest
             (visited @ [neighbor], queue @ [neighbor],
              if neighbor \<in> set cs then stations @ [neighbor] else stations)
      else visit_stations cs rest (visited, queue, stations))"

lemma visit_stations_fresh:
  "visit_stations cs ns (V, Q, S) =
     (V @ fresh (set V) ns, Q @ fresh (set V) ns, S @ filter (\<lambda>n. n \<in> set cs) (fresh (set V) ns))"
proof (induction ns arbitrary: V Q S)
  case Nil
  show ?case by simp
next
  case (Cons n ns)
  show ?case
  proof (cases "n \<in> set V")
    case True
    then show ?thesis
      using Cons.IH [of V Q S] by simp
  next
    case False
    have "set (V @ [n]) = insert n (set V)"
      by simp
    then show ?thesis
      using Cons.IH [of "V @ [n]" "Q @ [n]" "if n \<in> set cs then S @ [n] else S"] False
      by simp
  qed
qed

lemma fresh_measure:
  assumes "set ns \<subseteq> graph_nodes G"
  shows "search_measure G (seen \<union> set (fresh seen ns)) (Q @ fresh seen ns) \<le> search_measure G seen Q"
proof -
  have "card (graph_nodes G - (seen \<union> set (fresh seen ns))) + length (fresh seen ns) = card (graph_nodes G - seen)"
  proof -
    have "graph_nodes G - seen = (graph_nodes G - (seen \<union> set (fresh seen ns))) \<union> set (fresh seen ns)"
      using assms by (auto simp: set_fresh)
    moreover have "(graph_nodes G - (seen \<union> set (fresh seen ns))) \<inter> set (fresh seen ns) = {}"
      by auto
    ultimately have "card (graph_nodes G - seen) =
        card (graph_nodes G - (seen \<union> set (fresh seen ns))) + card (set (fresh seen ns))"
      using card_Un_disjoint [of "graph_nodes G - (seen \<union> set (fresh seen ns))" "set (fresh seen ns)"]
        finite_graph_nodes [of G]
      by simp
    then show ?thesis
      by (simp add: distinct_card [OF distinct_fresh])
  qed
  then show ?thesis
    by (simp add: search_measure_def)
qed

text \<open>
  The \<open>while\<close> loop of \<open>get_shortest_path\<close>. \<open>target\<close> is the argument \<open>end\<close>; it is an
  option because \<open>distance\<close> is also called with the \<open>None\<close> that
  \<open>get_closest_charging_station\<close> may return. \<open>G[node]\<close> raises \<open>KeyError\<close> when the node
  has no entry in \<open>G\<close>.
\<close>

function search :: "graph \<Rightarrow> string option \<Rightarrow> parents \<Rightarrow> string list \<Rightarrow> error + parents" where
  "search G target visited [] = Inr visited"
| "search G target visited (node # queue) =
     (if Some node = target then Inr visited
      else (case map_of G node of
              None \<Rightarrow> Inl KeyError
            | Some ns \<Rightarrow>
                (case visit_neighbors node ns (visited, queue) of
                   (visited', queue') \<Rightarrow> search G target visited' queue')))"
  by pat_completeness auto
termination
  apply (relation "measure (\<lambda>(G, target, visited, queue). search_measure G (fst ` set visited) queue)")
  apply simp
  subgoal premises p for G target visited node queue ns x y
    using fresh_measure [OF neighbors_in_graph_nodes [OF p(2)], of "fst ` set visited" queue] p(3)
    by (simp add: visit_neighbors_fresh search_measure_def image_Un image_image)
  done

text \<open>The \<open>while\<close> loop of \<open>get_all_charging_station\<close>.\<close>

function station_search :: "graph \<Rightarrow> string list \<Rightarrow> string list \<Rightarrow> string list \<Rightarrow> string list \<Rightarrow> error + string list" where
  "station_search G cs visited [] stations = Inr stations"
| "station_search G cs visited (node # queue) stations =
     (case map_of G node of
        None \<Rightarrow> Inl KeyError
      | Some ns \<Rightarrow>
          (case visit_stations cs ns (visited, queue, stations) of
             (visited', queue', stations') \<Rightarrow> station_search G cs visited' queue' stations'))"
  by pat_completeness auto
termination
  apply (relation "measure (\<lambda>(G, cs, visited, queue, stations). search_measure G (set visited) queue)")
  apply simp
  subgoal premises p for G cs visited node queue stations ns x y z w
    using fresh_measure [OF neighbors_in_graph_nodes [OF p(1)], of "set visited" queue] p(2-)
    by (simp add: visit_stations_fresh search_measure_def)
  done


lemma search_invariant:
  assumes "search G target V Q = Inr V'"
    and "P V Q"
    and "\<And>V node Q ns. P V (node # Q) \<Longrightarrow> Some node \<noteq> target \<Longrightarrow> map_of G node = Some ns \<Longrightarrow>
           P (V @ map (\<lambda>n. (n, Some node)) (fresh (fst ` set V) ns)) (Q @ fresh (fst ` set V) ns)"
  shows "\<exists>Q'. P V' Q' \<and> (Q' = [] \<or> Some (hd Q') = target)"
  using assms
proof (induction G target V Q rule: search.induct)
  case (1 G target visited)
  then show ?case by auto
next
  case (2 G target visited node queue)
  show ?case
  proof (cases "Some node = target")
    case True
    with "2.prems"(1,2) show ?thesis by auto
  next
    case False
    with "2.prems"(1) obtain ns where ns: "map_of G node = Some ns"
      by (auto split: option.splits)
    let ?new = "fresh (fst ` set visited) ns"
    let ?V = "visited @ map (\<lambda>n. (n, Some node)) ?new"
    have run: "search G target ?V (queue @ ?new) = Inr V'"
      using "2.prems"(1) False ns by (simp add: visit_neighbors_fresh)
    have inv: "P ?V (queue @ ?new)"
      using "2.prems"(3) [OF "2.prems"(2) False ns] by simp
    show ?thesis
      by (rule "2.IH" [OF False ns visit_neighbors_fresh [symmetric] run inv "2.prems"(3)])
  qed
qed

text \<open>
  In the dictionary the search leaves, every room other than the start was entered after
  the room it was reached from. This is why following the parents ends.
\<close>

fun parents_first :: "string set \<Rightarrow> parents \<Rightarrow> bool" where
  "parents_first seen [] = True"
| "parents_first seen ((k, par) # rest) =
     (k \<notin> seen \<and> (case par of None \<Rightarrow> True | Some p \<Rightarrow> p \<in> seen) \<and> parents_first (insert k seen) rest)"

lemma parents_first_append:
  "parents_first seen (V @ W) \<longleftrightarrow> parents_first seen V \<and> parents_first (seen \<union> fst ` set V) W"
proof (induction V arbitrary: seen)
  case Nil
  show ?case by simp
next
  case (Cons e V)
  obtain k par where e: "e = (k, par)" by (cases e)
  have "seen \<union> fst ` set (e # V) = insert k seen \<union> fst ` set V"
    using e by auto
  then show ?case
    using Cons.IH [of "insert k seen"] e by auto
qed

definition position :: "parents \<Rightarrow> string \<Rightarrow> nat" where
  "position V k = length (takeWhile (\<lambda>e. fst e \<noteq> k) V)"

lemma parent_position:
  assumes "parents_first seen V" "map_of V v = Some (Some p)"
  shows "p \<in> seen \<or> position V p < position V v"
  using assms
proof (induction V arbitrary: seen)
  case Nil
  then show ?case by simp
next
  case (Cons e V)
  obtain k par where e: "e = (k, par)" by (cases e)
  show ?case
  proof (cases "k = v")
    case True
    with Cons.prems e show ?thesis by auto
  next
    case False
    with Cons.prems e have "p \<in> insert k seen \<or> position V p < position V v"
      using Cons.IH [of "insert k seen"] by auto
    with False e show ?thesis
      by (auto simp: position_def)
  qed
qed

lemma parents_first_children:
  assumes "node \<in> seen" "distinct ns" "set ns \<inter> seen = {}"
  shows "parents_first seen (map (\<lambda>n. (n, Some node)) ns)"
  using assms by (induction ns arbitrary: seen) auto

definition search_from :: "graph \<Rightarrow> string \<Rightarrow> string option \<Rightarrow> error + parents" where
  "search_from G start target = search G target [(start, None)] [start]"

lemma search_from_parents_first:
  assumes "search_from G start target = Inr V"
  shows "parents_first {} V"
proof -
  let ?P = "\<lambda>V Q. parents_first {} V \<and> set Q \<subseteq> fst ` set V"
  have "\<exists>Q'. ?P V Q' \<and> (Q' = [] \<or> Some (hd Q') = target)"
  proof (rule search_invariant [where P = ?P, OF assms [unfolded search_from_def]])
    show "?P [(start, None)] [start]" by simp
  next
    fix V node Q ns
    assume inv: "?P V (node # Q)"
    let ?new = "fresh (fst ` set V) ns"
    have "parents_first (fst ` set V) (map (\<lambda>n. (n, Some node)) ?new)"
      using inv by (intro parents_first_children) (auto simp: distinct_fresh set_fresh)
    then show "?P (V @ map (\<lambda>n. (n, Some node)) ?new) (Q @ ?new)"
      using inv by (auto simp: parents_first_append image_Un set_fresh image_image)
  qed
  then show ?thesis by blast
qed

text \<open>
  The loop \<open>while visited[prev] != None: path.append(prev); prev = visited[prev]\<close>. The
  dictionary it reads is the one the search on the same graph, start and end has left,
  and the loop does not change it.
\<close>

function trace_back :: "graph \<Rightarrow> string \<Rightarrow> string option \<Rightarrow> string \<Rightarrow> string list \<Rightarrow> error + string list" where
  "trace_back G start target prev path =
     (case search_from G start target of
        Inl e \<Rightarrow> Inl e
      | Inr visited \<Rightarrow>
          (case map_of visited prev of
             None \<Rightarrow> Inl KeyError
           | Some None \<Rightarrow> Inr path
           | Some (Some parent) \<Rightarrow> trace_back G start target parent (path @ [prev])))"
  by pat_completeness auto
termination
  apply (relation "measure (\<lambda>(G, start, target, prev, path).
            case search_from G start target of Inl e \<Rightarrow> 0 | Inr visited \<Rightarrow> position visited prev)")
  apply simp
  subgoal premises p for G start target prev path visited par parent
    using parent_position [OF search_from_parents_first [OF p(1)], of prev parent] p
    by simp
  done

definition graph_of :: "rigid_relations \<Rightarrow> graph" where
  "graph_of rr = build_graph (adjacent rr) []"

text \<open>\<open>get_shortest_path\<close> returns \<open>False\<close> (here \<open>None\<close>) when \<open>end\<close> is not in \<open>visited\<close>.\<close>

definition get_shortest_path :: "rigid_relations \<Rightarrow> string \<Rightarrow> string option \<Rightarrow> error + string list option" where
  "get_shortest_path rr start target =
     (let G = graph_of rr
      in case search_from G start target of
           Inl e \<Rightarrow> Inl e
         | Inr visited \<Rightarrow>
             (case target of
                None \<Rightarrow> Inr None
              | Some e \<Rightarrow>
                  if map_of visited e = None then Inr None
                  else (case trace_back G start target e [] of
                          Inl er \<Rightarrow> Inl er
                        | Inr path \<Rightarrow> Inr (Some (rev path)))))"

definition get_all_charging_station :: "rigid_relations \<Rightarrow> string \<Rightarrow> error + string list" where
  "get_all_charging_station rr l =
     station_search (graph_of rr) (types rr Charging_stations) [l] [l] []"

definition get_closest_charging_station :: "rigid_relations \<Rightarrow> string \<Rightarrow> error + string option" where
  "get_closest_charging_station rr l =
     (if is_charging_station rr l then Inr (Some l)
      else (case get_all_charging_station rr l of
              Inl e \<Rightarrow> Inl e
            | Inr stations \<Rightarrow> Inr (if length stations > 0 then Some (stations ! 0) else None)))"

text \<open>\<open>distance\<close> is \<open>len(get_shortest_path(loc1, loc2))\<close>, and \<open>len(False)\<close> raises \<open>TypeError\<close>.\<close>

definition distance :: "rigid_relations \<Rightarrow> string \<Rightarrow> string option \<Rightarrow> error + int" where
  "distance rr loc1 loc2 =
     (case get_shortest_path rr loc1 loc2 of
        Inl e \<Rightarrow> Inl e
      | Inr None \<Rightarrow> Inl TypeError
      | Inr (Some path) \<Rightarrow> Inr (int (length path)))"

text \<open>
  The sub-expression \<open>distance(dest, get_closest_charging_station(dest))\<close> of the
  battery estimates in \<open>travel_with1\<close> and \<open>travel_via1\<close>; the argument is evaluated first.
\<close>

definition distance_to_station :: "rigid_relations \<Rightarrow> string \<Rightarrow> error + int" where
  "distance_to_station rr dest =
     (case get_closest_charging_station rr dest of
        Inl e \<Rightarrow> Inl e
      | Inr station \<Rightarrow> distance rr dest station)"


section \<open>Operators\<close>

text \<open>
  An operator returns the state object it mutated, modelled as \<open>Inr True\<close> with the
  mutated state in \<open>state_after\<close>, or \<open>False\<close>, modelled as \<open>Inr False\<close>. The guard is a
  chain of \<open>and\<close>, evaluated left to right and cut short at the first false conjunct.
\<close>

definition move_guard :: "rigid_relations \<Rightarrow> state \<Rightarrow> string \<Rightarrow> string \<Rightarrow> string \<Rightarrow> error + bool" where
  "move_guard rr s R start_loc end_loc =
     (let type_check = is_a rr R Robot \<and> is_a rr start_loc Location \<and> is_a rr end_loc Location
      in if type_check \<and> is_adjacent rr start_loc end_loc
         then (case is_at s R start_loc of
                 Inl e \<Rightarrow> Inl e
               | Inr at \<Rightarrow>
                   if at
                   then (case lookup (battery s) R of
                           Inl e \<Rightarrow> Inl e
                         | Inr b \<Rightarrow> Inr (b > COST_PER_MOVE))
                   else Inr False)
         else Inr False)"

definition move_body :: "rigid_relations \<Rightarrow> state \<Rightarrow> string \<Rightarrow> string \<Rightarrow> (bool, rigid_relations, state) effect" where
  "move_body rr s R end_loc =
     (let s1 = s\<lparr>loc := (loc s)(R \<mapsto> end_loc)\<rparr>
      in case lookup (battery s1) R of
           Inl e \<Rightarrow> Effect (Inl e) rr s1
         | Inr b \<Rightarrow> Effect (Inr True) rr (s1\<lparr>battery := (battery s1)(R \<mapsto> b - COST_PER_MOVE)\<rparr>))"

definition move :: "rigid_relations \<Rightarrow> state \<Rightarrow> string \<Rightarrow> string \<Rightarrow> string \<Rightarrow> (bool, rigid_relations, state) effect" where
  "move rr s R start_loc end_loc =
     (case move_guard rr s R start_loc end_loc of
        Inl e \<Rightarrow> Effect (Inl e) rr s
      | Inr ok \<Rightarrow> if ok then move_body rr s R end_loc else Effect (Inr False) rr s)"

definition pickup :: "rigid_relations \<Rightarrow> state \<Rightarrow> string \<Rightarrow> string \<Rightarrow> (bool, rigid_relations, state) effect" where
  "pickup rr s R c =
     (let type_check = is_a rr R Robot \<and> is_a rr c Object
      in if type_check
         then (case lookup (cargo s) R of
                 Inl e \<Rightarrow> Effect (Inl e) rr s
               | Inr held \<Rightarrow>
                   if length held = 0
                   then (let s1 = s\<lparr>cargo := (cargo s)(R \<mapsto> held @ [c])\<rparr>
                         in Effect (Inr True) rr (s1\<lparr>loc := (loc s1)(c \<mapsto> R)\<rparr>))
                   else Effect (Inr False) rr s)
         else Effect (Inr False) rr s)"

text \<open>
  \<open>drop\<close> assigns \<open>state.loc[c]\<close> before it calls \<open>state.cargo[R].remove(c)\<close>, so an
  exception raised by the removal leaves the location already changed.
\<close>

definition drop_body :: "rigid_relations \<Rightarrow> state \<Rightarrow> string \<Rightarrow> string \<Rightarrow> (bool, rigid_relations, state) effect" where
  "drop_body rr s R c =
     (case lookup (loc s) R of
        Inl e \<Rightarrow> Effect (Inl e) rr s
      | Inr l \<Rightarrow>
          (let s1 = s\<lparr>loc := (loc s)(c \<mapsto> l)\<rparr>
           in case lookup (cargo s1) R of
                Inl e \<Rightarrow> Effect (Inl e) rr s1
              | Inr held \<Rightarrow>
                  if c \<in> set held
                  then Effect (Inr True) rr (s1\<lparr>cargo := (cargo s1)(R \<mapsto> remove1 c held)\<rparr>)
                  else Effect (Inl ValueError) rr s1))"

definition drop_op :: "rigid_relations \<Rightarrow> state \<Rightarrow> string \<Rightarrow> string \<Rightarrow> (bool, rigid_relations, state) effect" where
  "drop_op rr s R c =
     (let type_check = is_a rr R Robot \<and> is_a rr c Object
      in if type_check
         then (case lookup (loc s) c of
                 Inl e \<Rightarrow> Effect (Inl e) rr s
               | Inr l \<Rightarrow> if l = R then drop_body rr s R c else Effect (Inr False) rr s)
         else Effect (Inr False) rr s)"

definition recharge :: "rigid_relations \<Rightarrow> state \<Rightarrow> string \<Rightarrow> (bool, rigid_relations, state) effect" where
  "recharge rr s R =
     (let type_check = is_a rr R Robot
      in if type_check
         then (case lookup (loc s) R of
                 Inl e \<Rightarrow> Effect (Inl e) rr s
               | Inr l \<Rightarrow>
                   if is_charging_station rr l
                   then Effect (Inr True) rr (s\<lparr>battery := (battery s)(R \<mapsto> FULL_BATTERY)\<rparr>)
                   else Effect (Inr False) rr s)
         else Effect (Inr False) rr s)"

text \<open>
  The execution-time variant of \<open>move\<close>: on the edge between \<open>room2\<close> and \<open>room4\<close> it pops
  the key \<open>('room2', 'room4')\<close> from the global adjacency dictionary (\<open>KeyError\<close> when the
  key is absent) and returns \<open>False\<close>.
\<close>

definition move_exec :: "rigid_relations \<Rightarrow> state \<Rightarrow> string \<Rightarrow> string \<Rightarrow> string \<Rightarrow> (bool, rigid_relations, state) effect" where
  "move_exec rr s R start_loc end_loc =
     (case move_guard rr s R start_loc end_loc of
        Inl e \<Rightarrow> Effect (Inl e) rr s
      | Inr ok \<Rightarrow>
          if ok
          then (if (start_loc = ''room4'' \<and> end_loc = ''room2'') \<or> (start_loc = ''room2'' \<and> end_loc = ''room4'')
                then (if (''room2'', ''room4'') \<in> set (adjacent rr)
                      then Effect (Inr False) (rr\<lparr>adjacent := removeAll (''room2'', ''room4'') (adjacent rr)\<rparr>) s
                      else Effect (Inl KeyError) rr s)
                else move_body rr s R end_loc)
          else Effect (Inr False) rr s)"

section \<open>Tasks and methods\<close>

text \<open>
  A task is a tuple of a name and grounded arguments; the names are those given to
  \<open>declare_operators\<close> and \<open>declare_methods\<close>. A container-destination map is a
  dictionary, here the list of its items in insertion order.
\<close>

datatype task =
    Move string string string
  | Pickup string string
  | Drop string string
  | Recharge string
  | Transport_all string "(string \<times> string) list"
  | Transport_all_order string "string list" "(string \<times> string) list" int
  | Transport string string string
  | Travel string string "string list"
  | Travel_with_wrapper string string int int
  | Travel_with string string int "string list"
  | Travel_via string string string "string list" "string list" int

text \<open>\<open>LIMIT\<close> is the number of charging stations, computed when the module is loaded.\<close>

definition LIMIT :: "rigid_relations \<Rightarrow> int" where
  "LIMIT rr = int (length (types rr Charging_stations))"

text \<open>
  \<open>new_map.pop(c)\<close> on a copy of the map, and \<open>containers[i]\<close> with Python's indexing
  (a negative index counts from the end, an index out of range raises \<open>IndexError\<close>).
\<close>

definition dict_pop :: "(string \<times> string) list \<Rightarrow> string \<Rightarrow> (string \<times> string) list" where
  "dict_pop d k = filter (\<lambda>(k', v). k' \<noteq> k) d"

definition list_index :: "'a list \<Rightarrow> int \<Rightarrow> error + 'a" where
  "list_index xs i =
     (if 0 \<le> i \<and> i < int (length xs) then Inr (xs ! nat i)
      else if i < 0 \<and> - i \<le> int (length xs) then Inr (xs ! nat (int (length xs) + i))
      else Inl IndexError)"

text \<open>
  A method returns a list of subtasks (\<open>Inr (Some subtasks)\<close>) or \<open>False\<close> (\<open>Inr None\<close>),
  or raises. None of the methods assigns to the state or to the rigid relations.
\<close>

definition transport_all1 :: "rigid_relations \<Rightarrow> state \<Rightarrow> string \<Rightarrow> (string \<times> string) list \<Rightarrow> error + task list option" where
  "transport_all1 rr s R container_destination_map =
     (case lookup (cargo s) R of
        Inl e \<Rightarrow> Inl e
      | Inr held \<Rightarrow>
          (case held of
             [] \<Rightarrow> Inr None
           | c # _ \<Rightarrow>
               (case map_of container_destination_map c of
                  None \<Rightarrow> Inr None
                | Some dest \<Rightarrow>
                    Inr (Some [Transport R c dest, Transport_all R (dict_pop container_destination_map c)]))))"

text \<open>
  \<open>containers.sort(key=lambda c: distance(state.loc[R], state.loc[c]))\<close>: the keys are
  computed for every container first, in order, and the sort is stable.
\<close>

fun sort_keys :: "rigid_relations \<Rightarrow> state \<Rightarrow> string \<Rightarrow> string list \<Rightarrow> error + (int \<times> string) list" where
  "sort_keys rr s R [] = Inr []"
| "sort_keys rr s R (c # cs) =
     (case lookup (loc s) R of
        Inl e \<Rightarrow> Inl e
      | Inr here \<Rightarrow>
          (case lookup (loc s) c of
             Inl e \<Rightarrow> Inl e
           | Inr there \<Rightarrow>
               (case distance rr here (Some there) of
                  Inl e \<Rightarrow> Inl e
                | Inr d \<Rightarrow>
                    (case sort_keys rr s R cs of
                       Inl e \<Rightarrow> Inl e
                     | Inr keyed \<Rightarrow> Inr ((d, c) # keyed)))))"

definition transport_all2 :: "rigid_relations \<Rightarrow> state \<Rightarrow> string \<Rightarrow> (string \<times> string) list \<Rightarrow> error + task list option" where
  "transport_all2 rr s R container_destination_map =
     (case lookup (cargo s) R of
        Inl e \<Rightarrow> Inl e
      | Inr held \<Rightarrow>
          if length held = 0 \<and> length container_destination_map > 0
          then (case sort_keys rr s R (map fst container_destination_map) of
                  Inl e \<Rightarrow> Inl e
                | Inr keyed \<Rightarrow>
                    Inr (Some [Transport_all_order R (map snd (sort_key fst keyed)) container_destination_map 0]))
          else Inr None)"

definition transport_all3 :: "rigid_relations \<Rightarrow> state \<Rightarrow> string \<Rightarrow> (string \<times> string) list \<Rightarrow> error + task list option" where
  "transport_all3 rr s R container_destination_map =
     (if length container_destination_map = 0 then Inr (Some []) else Inr None)"

text \<open>The guard shared by \<open>transport_all_order1\<close> and \<open>transport_all_order2\<close>.\<close>

definition order_guard :: "state \<Rightarrow> string \<Rightarrow> (string \<times> string) list \<Rightarrow> int \<Rightarrow> error + bool" where
  "order_guard s R container_destination_map i =
     (case lookup (cargo s) R of
        Inl e \<Rightarrow> Inl e
      | Inr held \<Rightarrow>
          Inr (length held = 0 \<and> length container_destination_map > 0 \<and> i < int (length container_destination_map)))"

definition transport_all_order1 :: "rigid_relations \<Rightarrow> state \<Rightarrow> string \<Rightarrow> string list \<Rightarrow> (string \<times> string) list \<Rightarrow> int \<Rightarrow> error + task list option" where
  "transport_all_order1 rr s R containers container_destination_map i =
     (case order_guard s R container_destination_map i of
        Inl e \<Rightarrow> Inl e
      | Inr ok \<Rightarrow>
          if ok
          then (case list_index containers i of
                  Inl e \<Rightarrow> Inl e
                | Inr c \<Rightarrow>
                    (case map_of container_destination_map c of
                       None \<Rightarrow> Inl KeyError
                     | Some dest \<Rightarrow>
                         Inr (Some [Transport R c dest, Transport_all R (dict_pop container_destination_map c)])))
          else Inr None)"

definition transport_all_order2 :: "rigid_relations \<Rightarrow> state \<Rightarrow> string \<Rightarrow> string list \<Rightarrow> (string \<times> string) list \<Rightarrow> int \<Rightarrow> error + task list option" where
  "transport_all_order2 rr s R containers container_destination_map i =
     (case order_guard s R container_destination_map i of
        Inl e \<Rightarrow> Inl e
      | Inr ok \<Rightarrow>
          if ok then Inr (Some [Transport_all_order R containers container_destination_map (i + 1)])
          else Inr None)"

definition transport1 :: "rigid_relations \<Rightarrow> state \<Rightarrow> string \<Rightarrow> string \<Rightarrow> string \<Rightarrow> error + task list option" where
  "transport1 rr s R c dest =
     (case lookup (loc s) c of
        Inl e \<Rightarrow> Inl e
      | Inr l \<Rightarrow>
          if l \<noteq> dest \<and> is_a rr l Location
          then Inr (Some [Travel R l [l], Pickup R c, Travel R dest [dest], Drop R c])
          else Inr None)"

definition transport2 :: "rigid_relations \<Rightarrow> state \<Rightarrow> string \<Rightarrow> string \<Rightarrow> string \<Rightarrow> error + task list option" where
  "transport2 rr s R c dest =
     (case lookup (loc s) c of
        Inl e \<Rightarrow> Inl e
      | Inr l \<Rightarrow>
          if l \<noteq> dest \<and> l = R
          then Inr (Some [Travel R dest [dest], Drop R c])
          else Inr None)"

definition transport3 :: "rigid_relations \<Rightarrow> state \<Rightarrow> string \<Rightarrow> string \<Rightarrow> string \<Rightarrow> error + task list option" where
  "transport3 rr s R c dest =
     (case lookup (loc s) c of
        Inl e \<Rightarrow> Inl e
      | Inr l \<Rightarrow> if l = dest then Inr (Some []) else Inr None)"

definition travel_default :: "rigid_relations \<Rightarrow> state \<Rightarrow> string \<Rightarrow> string \<Rightarrow> string list \<Rightarrow> error + task list option" where
  "travel_default rr s R dest excluded_stations =
     (case lookup (loc s) R of
        Inl e \<Rightarrow> Inl e
      | Inr l \<Rightarrow> if l = dest then Inr (Some []) else Inr None)"

definition travel1 :: "rigid_relations \<Rightarrow> state \<Rightarrow> string \<Rightarrow> string \<Rightarrow> string list \<Rightarrow> error + task list option" where
  "travel1 rr s R dest excluded_stations = Inr (Some [Travel_with_wrapper R dest 0 (LIMIT rr)])"

definition travel_with_wrapper1 :: "rigid_relations \<Rightarrow> state \<Rightarrow> string \<Rightarrow> string \<Rightarrow> int \<Rightarrow> int \<Rightarrow> error + task list option" where
  "travel_with_wrapper1 rr s R dest i limit =
     (if i \<le> limit then Inr (Some [Travel_with R dest i []]) else Inr None)"

definition travel_with_wrapper2 :: "rigid_relations \<Rightarrow> state \<Rightarrow> string \<Rightarrow> string \<Rightarrow> int \<Rightarrow> int \<Rightarrow> error + task list option" where
  "travel_with_wrapper2 rr s R dest i limit =
     (if i < limit then Inr (Some [Travel_with_wrapper R dest (i + 1) limit]) else Inr None)"

fun moves_along :: "string \<Rightarrow> string \<Rightarrow> string list \<Rightarrow> task list" where
  "moves_along R prev [] = []"
| "moves_along R prev (l # path) = Move R prev l # moves_along R l path"

text \<open>The sum of two distances, the left one evaluated first.\<close>

definition path_sum :: "error + int \<Rightarrow> error + int \<Rightarrow> error + int" where
  "path_sum d1 d2 =
     (case d1 of Inl e \<Rightarrow> Inl e | Inr a \<Rightarrow> (case d2 of Inl e \<Rightarrow> Inl e | Inr b \<Rightarrow> Inr (a + b)))"

text \<open>
  \<open>travel_with1\<close> evaluates \<open>enough_battery\<close>, that is \<open>state.battery[R]\<close>, then the two
  distances, before the \<open>if\<close> that tests \<open>state.loc[R] != dest\<close> and \<open>is_a(dest, 'loc')\<close>.
\<close>

definition travel_with1 :: "rigid_relations \<Rightarrow> state \<Rightarrow> string \<Rightarrow> string \<Rightarrow> int \<Rightarrow> string list \<Rightarrow> error + task list option" where
  "travel_with1 rr s R dest i excluded_stations =
     (if i = 0
      then (case lookup (battery s) R of
              Inl e \<Rightarrow> Inl e
            | Inr charge \<Rightarrow>
                (case lookup (loc s) R of
                   Inl e \<Rightarrow> Inl e
                 | Inr here \<Rightarrow>
                     (case path_sum (distance rr here (Some dest)) (distance_to_station rr dest) of
                        Inl e \<Rightarrow> Inl e
                      | Inr d \<Rightarrow>
                          (let enough_battery = charge > COST_PER_MOVE * d
                           in if here \<noteq> dest \<and> is_a rr dest Location \<and> enough_battery
                              then (case get_shortest_path rr here (Some dest) of
                                      Inl e \<Rightarrow> Inl e
                                    | Inr None \<Rightarrow> Inl TypeError
                                    | Inr (Some path) \<Rightarrow> Inr (Some (moves_along R here path)))
                              else Inr None))))
      else Inr None)"

definition travel_with2 :: "rigid_relations \<Rightarrow> state \<Rightarrow> string \<Rightarrow> string \<Rightarrow> int \<Rightarrow> string list \<Rightarrow> error + task list option" where
  "travel_with2 rr s R dest i excluded_stations =
     (if i > 0
      then (case get_all_charging_station rr dest of
              Inl e \<Rightarrow> Inl e
            | Inr stations \<Rightarrow>
                (let filtered_stations = filter (\<lambda>st. st \<notin> set excluded_stations) stations
                 in case lookup (loc s) R of
                      Inl e \<Rightarrow> Inl e
                    | Inr here \<Rightarrow>
                        if here \<noteq> dest \<and> is_a rr dest Location \<and> length filtered_stations > 0
                        then Inr (Some [Travel_via R dest (filtered_stations ! 0) (drop 1 filtered_stations) excluded_stations i])
                        else Inr None))
      else Inr None)"

definition travel_via1 :: "rigid_relations \<Rightarrow> state \<Rightarrow> string \<Rightarrow> string \<Rightarrow> string \<Rightarrow> string list \<Rightarrow> string list \<Rightarrow> int \<Rightarrow> error + task list option" where
  "travel_via1 rr s R dest station other_stations excluded_stations i =
     (case path_sum (distance rr station (Some dest)) (distance_to_station rr dest) of
        Inl e \<Rightarrow> Inl e
      | Inr d \<Rightarrow>
          (let enough_battery = FULL_BATTERY > COST_PER_MOVE * d
           in if i > 0 \<and> is_a rr station Location \<and> enough_battery
              then (let new_excluded_stations = excluded_stations @ [station]
                    in Inr (Some [Travel_with R station (i - 1) new_excluded_stations, Recharge R,
                                  Travel_with R dest 0 new_excluded_stations]))
              else Inr None))"

definition travel_via2 :: "rigid_relations \<Rightarrow> state \<Rightarrow> string \<Rightarrow> string \<Rightarrow> string \<Rightarrow> string list \<Rightarrow> string list \<Rightarrow> int \<Rightarrow> error + task list option" where
  "travel_via2 rr s R dest station other_stations excluded_stations i =
     (if i > 0 \<and> length other_stations > 0
      then (let new_excluded_stations = excluded_stations @ [station]
            in Inr (Some [Travel_via R dest (other_stations ! 0) (drop 1 other_stations) new_excluded_stations i]))
      else Inr None)"

section \<open>The planner\<close>

text \<open>
  Modelled from the spec: the planning engine (\<open>pyhop.py\<close>, with \<open>declare_operators\<close>,
  \<open>declare_methods\<close> and \<open>pyhop\<close>) is not among the source files. A domain descriptor maps
  a task to its operator, when its name is an operator's, and to the methods registered
  for its name, in declaration order. An operator is applied to the global rigid
  relations and the state, a method reads them.
\<close>

record ('g, 's, 't) domain =
  operator_of :: "'t \<Rightarrow> ('g \<Rightarrow> 's \<Rightarrow> (bool, 'g, 's) effect) option"
  methods_of :: "'t \<Rightarrow> ('g \<Rightarrow> 's \<Rightarrow> error + 't list option) list"

text \<open>
  Modelled from the spec: the outcome of \<open>seek_plan\<close> (section 4.1 of the spec), which is
  missing from the sources: a plan, or the failure \<open>NoPlanFound\<close>. An exception raised by
  an operator or a method ends the search (\<open>Raised\<close>).
\<close>

datatype 't planning = Raised error | Failure | Plan "'t list"

text \<open>
  Modelled from the spec: \<open>seek_plan\<close>, missing from the sources, after section 4.1. An
  empty task network has the empty plan. An atomic head task is applied to (a copy of)
  the state: if the operator fails the branch fails, otherwise the search continues with
  the new state and the task is prepended to the plan found. For a compound head task
  the methods are tried in declaration order on the unchanged state: a method that fails
  is skipped, the subtasks of one that succeeds are put in front of the remaining tasks,
  the first plan found is returned, and when that search fails the next method is tried.
  The search has no depth limit; \<open>fuel\<close> bounds the depth of the recursion, and \<open>None\<close>
  means that the search did not finish within it. The rigid relations are global: they are
  handed from call to call as the operators leave them.
\<close>

function seek_plan :: "('g, 's, 't) domain \<Rightarrow> nat \<Rightarrow> 'g \<Rightarrow> 's \<Rightarrow> 't list \<Rightarrow> ('t planning \<times> 'g) option"
  and try_methods :: "('g, 's, 't) domain \<Rightarrow> nat \<Rightarrow> 'g \<Rightarrow> 's \<Rightarrow> ('g \<Rightarrow> 's \<Rightarrow> error + 't list option) list \<Rightarrow> 't list \<Rightarrow> ('t planning \<times> 'g) option"
where
  "seek_plan D 0 g s tasks = None"
| "seek_plan D (Suc n) g s [] = Some (Plan [], g)"
| "seek_plan D (Suc n) g s (t # rest) =
     (case operator_of D t of
        Some operator \<Rightarrow>
          (case operator g s of
             Effect (Inl e) g' s' \<Rightarrow> Some (Raised e, g')
           | Effect (Inr ok) g' s' \<Rightarrow>
               if ok
               then (case seek_plan D n g' s' rest of
                       None \<Rightarrow> None
                     | Some (Plan p, g'') \<Rightarrow> Some (Plan (t # p), g'')
                     | Some (r, g'') \<Rightarrow> Some (r, g''))
               else Some (Failure, g'))
      | None \<Rightarrow> try_methods D n g s (methods_of D t) rest)"
| "try_methods D n g s [] rest = Some (Failure, g)"
| "try_methods D n g s (method # methods) rest =
     (case method g s of
        Inl e \<Rightarrow> Some (Raised e, g)
      | Inr None \<Rightarrow> try_methods D n g s methods rest
      | Inr (Some subtasks) \<Rightarrow>
          (case seek_plan D n g s (subtasks @ rest) of
             None \<Rightarrow> None
           | Some (Failure, g') \<Rightarrow> try_methods D n g' s methods rest
           | Some (r, g') \<Rightarrow> Some (r, g')))"
  by pat_completeness auto
termination
  by (relation "inv_image (less_than <*lex*> less_than) (\<lambda>x. case x of
        Inl (D, n, g, s, tasks) \<Rightarrow> (2 * n, 0)
      | Inr (D, n, g, s, methods, rest) \<Rightarrow> (2 * n + 1, length methods))") auto

text \<open>Modelled from the spec: \<open>plan(state, goal_tasks)\<close> of the planner API, missing from the sources.\<close>

definition plan :: "('g, 's, 't) domain \<Rightarrow> nat \<Rightarrow> 'g \<Rightarrow> 's \<Rightarrow> 't list \<Rightarrow> ('t planning \<times> 'g) option" where
  "plan D fuel g s tasks = seek_plan D fuel g s tasks"

text \<open>
  The domain of \<open>final_warehouse_robot.py\<close>: \<open>declare_operators(move, pickup, drop,
  recharge)\<close> and the seven calls of \<open>declare_methods\<close>.
\<close>

definition warehouse :: "(rigid_relations, state, task) domain" where
  "warehouse =
     \<lparr>operator_of = (\<lambda>t. case t of
          Move R start_loc end_loc \<Rightarrow> Some (\<lambda>rr s. move rr s R start_loc end_loc)
        | Pickup R c \<Rightarrow> Some (\<lambda>rr s. pickup rr s R c)
        | Drop R c \<Rightarrow> Some (\<lambda>rr s. drop_op rr s R c)
        | Recharge R \<Rightarrow> Some (\<lambda>rr s. recharge rr s R)
        | _ \<Rightarrow> None),
      methods_of = (\<lambda>t. case t of
          Transport_all R m \<Rightarrow>
            [\<lambda>rr s. transport_all1 rr s R m, \<lambda>rr s. transport_all2 rr s R m, \<lambda>rr s. transport_all3 rr s R m]
        | Transport_all_order R cs m i \<Rightarrow>
            [\<lambda>rr s. transport_all_order1 rr s R cs m i, \<lambda>rr s. transport_all_order2 rr s R cs m i]
        | Transport R c dest \<Rightarrow>
            [\<lambda>rr s. transport1 rr s R c dest, \<lambda>rr s. transport2 rr s R c dest, \<lambda>rr s. transport3 rr s R c dest]
        | Travel R dest ex \<Rightarrow>
            [\<lambda>rr s. travel_default rr s R dest ex, \<lambda>rr s. travel1 rr s R dest ex]
        | Travel_with_wrapper R dest i limit \<Rightarrow>
            [\<lambda>rr s. travel_with_wrapper1 rr s R dest i limit, \<lambda>rr s. travel_with_wrapper2 rr s R dest i limit]
        | Travel_with R dest i ex \<Rightarrow>
            [\<lambda>rr s. travel_with1 rr s R dest i ex, \<lambda>rr s. travel_with2 rr s R dest i ex]
        | Travel_via R dest station others ex i \<Rightarrow>
            [\<lambda>rr s. travel_via1 rr s R dest station others ex i, \<lambda>rr s. travel_via2 rr s R dest station others ex i]
        | _ \<Rightarrow> [])\<rparr>"


text \<open>
  Executing a plan: its steps are applied one after the other, each to the state the
  step before has left, and every step has to succeed. \<open>keeps_global\<close> says that no
  operator of a domain changes the rigid relations.
\<close>

definition keeps_global :: "('g, 's, 't) domain \<Rightarrow> bool" where
  "keeps_global D = (\<forall>t f g s. operator_of D t = Some f \<longrightarrow> rigid_after (f g s) = g)"

fun execute :: "('g, 's, 't) domain \<Rightarrow> 'g \<Rightarrow> 's \<Rightarrow> 't list \<Rightarrow> ('g \<times> 's) option" where
  "execute D g s [] = Some (g, s)"
| "execute D g s (t # p) =
     (case operator_of D t of
        None \<Rightarrow> None
      | Some operator \<Rightarrow>
          (case operator g s of
             Effect (Inl e) g' s' \<Rightarrow> None
           | Effect (Inr ok) g' s' \<Rightarrow> if ok then execute D g' s' p else None))"


section \<open>The simple scenario\<close>

text \<open>
  The domain of \<open>simple_warehouse_robot.py\<close>: a move costs 25, \<open>recharge\<close> is allowed
  anywhere and sets the battery to 100, \<open>pickup\<close>, \<open>drop\<close> and \<open>get_shortest_path\<close> are
  those of the warehouse domain, and \<open>travel\<close> decomposes into \<open>move_next\<close> tasks. Its
  \<open>types\<close> dictionary has no key \<open>'charging_stations'\<close> (and nothing reads it), shown
  here as the empty list.
\<close>

datatype simple_task =
    Simple_move string string string
  | Simple_pickup string string
  | Simple_drop string string
  | Simple_recharge string
  | Simple_transport string string string
  | Simple_travel string string
  | Move_next string string string

definition simple_rigid :: rigid_relations where
  "simple_rigid =
     \<lparr>types = (\<lambda>ty. case ty of
          Robot \<Rightarrow> [''R1'']
        | Object \<Rightarrow> [''c1'']
        | Location \<Rightarrow> [''room1'', ''room2'', ''room3'', ''room4'']
        | Charging_stations \<Rightarrow> []),
      adjacent = [(''room1'', ''room2''), (''room1'', ''room3''), (''room2'', ''room4'')]\<rparr>"

definition simple_state0 :: state where
  "simple_state0 =
     \<lparr>loc = [''R1'' \<mapsto> ''room1'', ''c1'' \<mapsto> ''room3''],
      cargo = [''R1'' \<mapsto> []],
      battery = [''R1'' \<mapsto> 50]\<rparr>"

definition simple_move_guard :: "rigid_relations \<Rightarrow> state \<Rightarrow> string \<Rightarrow> string \<Rightarrow> string \<Rightarrow> error + bool" where
  "simple_move_guard rr s R start_loc end_loc =
     (let type_check = is_a rr R Robot \<and> is_a rr start_loc Location \<and> is_a rr end_loc Location
      in if type_check \<and> is_adjacent rr start_loc end_loc
         then (case is_at s R start_loc of
                 Inl e \<Rightarrow> Inl e
               | Inr at \<Rightarrow>
                   if at
                   then (case lookup (battery s) R of
                           Inl e \<Rightarrow> Inl e
                         | Inr b \<Rightarrow> Inr (b > 25))
                   else Inr False)
         else Inr False)"

definition simple_move :: "rigid_relations \<Rightarrow> state \<Rightarrow> string \<Rightarrow> string \<Rightarrow> string \<Rightarrow> (bool, rigid_relations, state) effect" where
  "simple_move rr s R start_loc end_loc =
     (case simple_move_guard rr s R start_loc end_loc of
        Inl e \<Rightarrow> Effect (Inl e) rr s
      | Inr ok \<Rightarrow>
          if ok
          then (let s1 = s\<lparr>loc := (loc s)(R \<mapsto> end_loc)\<rparr>
                in case lookup (battery s1) R of
                     Inl e \<Rightarrow> Effect (Inl e) rr s1
                   | Inr b \<Rightarrow> Effect (Inr True) rr (s1\<lparr>battery := (battery s1)(R \<mapsto> b - 25)\<rparr>))
          else Effect (Inr False) rr s)"

definition simple_recharge :: "rigid_relations \<Rightarrow> state \<Rightarrow> string \<Rightarrow> (bool, rigid_relations, state) effect" where
  "simple_recharge rr s R =
     (let type_check = is_a rr R Robot
      in if type_check
         then Effect (Inr True) rr (s\<lparr>battery := (battery s)(R \<mapsto> 100)\<rparr>)
         else Effect (Inr False) rr s)"

definition simple_transport1 :: "rigid_relations \<Rightarrow> state \<Rightarrow> string \<Rightarrow> string \<Rightarrow> string \<Rightarrow> error + simple_task list option" where
  "simple_transport1 rr s R c dest =
     (case lookup (loc s) c of
        Inl e \<Rightarrow> Inl e
      | Inr l \<Rightarrow>
          if l \<noteq> dest \<and> is_a rr l Location
          then Inr (Some [Simple_travel R l, Simple_pickup R c, Simple_travel R dest, Simple_drop R c])
          else Inr None)"

definition simple_transport2 :: "rigid_relations \<Rightarrow> state \<Rightarrow> string \<Rightarrow> string \<Rightarrow> string \<Rightarrow> error + simple_task list option" where
  "simple_transport2 rr s R c dest =
     (case lookup (loc s) c of
        Inl e \<Rightarrow> Inl e
      | Inr l \<Rightarrow>
          if l \<noteq> dest \<and> l = R
          then Inr (Some [Simple_travel R dest, Simple_drop R c])
          else Inr None)"

definition simple_transport3 :: "rigid_relations \<Rightarrow> state \<Rightarrow> string \<Rightarrow> string \<Rightarrow> string \<Rightarrow> error + simple_task list option" where
  "simple_transport3 rr s R c dest =
     (case lookup (loc s) c of
        Inl e \<Rightarrow> Inl e
      | Inr l \<Rightarrow> if l = dest then Inr (Some []) else Inr None)"

fun move_next_along :: "string \<Rightarrow> string \<Rightarrow> string list \<Rightarrow> simple_task list" where
  "move_next_along R prev [] = []"
| "move_next_along R prev (l # path) = Move_next R prev l # move_next_along R l path"

definition simple_travel1 :: "rigid_relations \<Rightarrow> state \<Rightarrow> string \<Rightarrow> string \<Rightarrow> error + simple_task list option" where
  "simple_travel1 rr s R dest =
     (case lookup (loc s) R of
        Inl e \<Rightarrow> Inl e
      | Inr here \<Rightarrow>
          if here \<noteq> dest \<and> is_a rr dest Location
          then (case get_shortest_path rr here (Some dest) of
                  Inl e \<Rightarrow> Inl e
                | Inr None \<Rightarrow> Inl TypeError
                | Inr (Some path) \<Rightarrow> Inr (Some (move_next_along R here path)))
          else Inr None)"

definition simple_travel2 :: "rigid_relations \<Rightarrow> state \<Rightarrow> string \<Rightarrow> string \<Rightarrow> error + simple_task list option" where
  "simple_travel2 rr s R dest =
     (case lookup (loc s) R of
        Inl e \<Rightarrow> Inl e
      | Inr here \<Rightarrow> if here = dest then Inr (Some []) else Inr None)"

definition move_next1 :: "rigid_relations \<Rightarrow> state \<Rightarrow> string \<Rightarrow> string \<Rightarrow> string \<Rightarrow> error + simple_task list option" where
  "move_next1 rr s R l next_loc =
     (if is_adjacent rr l next_loc
      then (case lookup (battery s) R of
              Inl e \<Rightarrow> Inl e
            | Inr b \<Rightarrow> if b > 25 then Inr (Some [Simple_move R l next_loc]) else Inr None)
      else Inr None)"

definition move_next2 :: "rigid_relations \<Rightarrow> state \<Rightarrow> string \<Rightarrow> string \<Rightarrow> string \<Rightarrow> error + simple_task list option" where
  "move_next2 rr s R l next_loc =
     (if is_adjacent rr l next_loc
      then (case lookup (battery s) R of
              Inl e \<Rightarrow> Inl e
            | Inr b \<Rightarrow>
                if b \<le> 25 then Inr (Some [Simple_recharge R, Simple_move R l next_loc]) else Inr None)
      else Inr None)"

definition simple_warehouse :: "(rigid_relations, state, simple_task) domain" where
  "simple_warehouse =
     \<lparr>operator_of = (\<lambda>t. case t of
          Simple_move R start_loc end_loc \<Rightarrow> Some (\<lambda>rr s. simple_move rr s R start_loc end_loc)
        | Simple_pickup R c \<Rightarrow> Some (\<lambda>rr s. pickup rr s R c)
        | Simple_drop R c \<Rightarrow> Some (\<lambda>rr s. drop_op rr s R c)
        | Simple_recharge R \<Rightarrow> Some (\<lambda>rr s. simple_recharge rr s R)
        | _ \<Rightarrow> None),
      methods_of = (\<lambda>t. case t of
          Simple_transport R c dest \<Rightarrow>
            [\<lambda>rr s. simple_transport1 rr s R c dest, \<lambda>rr s. simple_transport2 rr s R c dest,
             \<lambda>rr s. simple_transport3 rr s R c dest]
        | Simple_travel R dest \<Rightarrow>
            [\<lambda>rr s. simple_travel1 rr s R dest, \<lambda>rr s. simple_travel2 rr s R dest]
        | Move_next R l next_loc \<Rightarrow>
            [\<lambda>rr s. move_next1 rr s R l next_loc, \<lambda>rr s. move_next2 rr s R l next_loc]
        | _ \<Rightarrow> [])\<rparr>"

section \<open>The declared scenario\<close>

definition rigid0 :: rigid_relations where
  "rigid0 =
     \<lparr>types = (\<lambda>ty. case ty of
          Robot \<Rightarrow> [''R1'']
        | Object \<Rightarrow> [''c1'', ''c2'', ''c3'']
        | Location \<Rightarrow> [''room1'', ''room2'', ''room3'', ''room4'', ''room5'', ''room6'', ''room7'', ''room8'', ''room9'']
        | Charging_stations \<Rightarrow> [''room3'', ''room6'', ''room9'']),
      adjacent =
        [(''room1'', ''room2''), (''room2'', ''room3''), (''room2'', ''room4''), (''room2'', ''room5''),
         (''room5'', ''room6''), (''room3'', ''room4''), (''room3'', ''room7''), (''room7'', ''room8''),
         (''room8'', ''room9''), (''room6'', ''room9'')]\<rparr>"

definition state0 :: state where
  "state0 =
     \<lparr>loc = [''R1'' \<mapsto> ''room1'', ''c1'' \<mapsto> ''room4'', ''c2'' \<mapsto> ''room6'', ''c3'' \<mapsto> ''room8''],
      cargo = [''R1'' \<mapsto> []],
      battery = [''R1'' \<mapsto> 100]\<rparr>"

text \<open>
  A state of the same scenario with the robot in room2, the adjacency dictionary as
  \<open>move_exec\<close> leaves it after the blocked move between room2 and room4, a state with
  the battery at the cost of one move, and that state without the entry \<open>loc['R1']\<close>.
\<close>

definition blocked_state :: state where
  "blocked_state = state0\<lparr>loc := (loc state0)(''R1'' \<mapsto> ''room2'')\<rparr>"

definition rigid_blocked :: rigid_relations where
  "rigid_blocked = rigid0\<lparr>adjacent := removeAll (''room2'', ''room4'') (adjacent rigid0)\<rparr>"

definition low_state :: state where
  "low_state = state0\<lparr>battery := [''R1'' \<mapsto> 20]\<rparr>"

definition unplaced_state :: state where
  "unplaced_state = low_state\<lparr>loc := (loc low_state)(''R1'' := None)\<rparr>"

text \<open>The capacity invariant: no cargo list in the state holds more than one container.\<close>

definition cargo_bounded :: "state \<Rightarrow> bool" where
  "cargo_bounded s = (\<forall>R held. cargo s R = Some held \<longrightarrow> length held \<le> 1)"

section \<open>Routes and distances\<close>

text \<open>
  Routes in a graph given by its edge relation: \<open>route E a p\<close> holds when the rooms of
  \<open>p\<close> can be entered one after the other starting in \<open>a\<close>, each step along an edge.
  \<open>hops E a b n\<close> says that some route of \<open>n\<close> edges leads from \<open>a\<close> to \<open>b\<close>, and
  \<open>dist E a b\<close> is the least such \<open>n\<close>.
\<close>

fun route :: "(string \<Rightarrow> string \<Rightarrow> bool) \<Rightarrow> string \<Rightarrow> string list \<Rightarrow> bool" where
  "route E a [] = True"
| "route E a (b # rest) = (E a b \<and> route E b rest)"

definition joins :: "(string \<Rightarrow> string \<Rightarrow> bool) \<Rightarrow> string \<Rightarrow> string list \<Rightarrow> string \<Rightarrow> bool" where
  "joins E a p b = (route E a p \<and> last (a # p) = b)"

definition hops :: "(string \<Rightarrow> string \<Rightarrow> bool) \<Rightarrow> string \<Rightarrow> string \<Rightarrow> nat \<Rightarrow> bool" where
  "hops E a b n = (\<exists>p. joins E a p b \<and> length p = n)"

definition dist :: "(string \<Rightarrow> string \<Rightarrow> bool) \<Rightarrow> string \<Rightarrow> string \<Rightarrow> nat" where
  "dist E a b = (LEAST n. hops E a b n)"

definition edge :: "graph \<Rightarrow> string \<Rightarrow> string \<Rightarrow> bool" where
  "edge G u v = (\<exists>ns. map_of G u = Some ns \<and> v \<in> set ns)"

text \<open>\<open>reach G a v\<close>: some route along the edges of \<open>G\<close> leads from \<open>a\<close> to \<open>v\<close>.\<close>

definition reach :: "graph \<Rightarrow> string \<Rightarrow> string \<Rightarrow> bool" where
  "reach G a v = (\<exists>n. hops (edge G) a v n)"

text \<open>
  The invariant of the \<open>while\<close> loop of \<open>get_shortest_path\<close>: the queue is the tail of
  the visited dictionary, whose keys are in the order of their distance from the start;
  every parent is one edge and one unit of distance nearer; the nodes already dequeued
  have all their neighbours visited.
\<close>

definition bfs_inv :: "graph \<Rightarrow> string \<Rightarrow> parents \<Rightarrow> string list \<Rightarrow> bool" where
  "bfs_inv G a V Q \<longleftrightarrow>
     (\<exists>P. map fst V = P @ Q) \<and>
     distinct (map fst V) \<and>
     map_of V a = Some None \<and>
     (\<forall>v. map_of V v = Some None \<longrightarrow> v = a) \<and>
     (\<forall>v p. map_of V v = Some (Some p) \<longrightarrow>
        p \<in> fst ` set V \<and> edge G p v \<and> reach G a p \<and> dist (edge G) a v = Suc (dist (edge G) a p)) \<and>
     sorted (map (dist (edge G) a) (map fst V)) \<and>
     (\<forall>x \<in> fst ` set V. Q \<noteq> [] \<longrightarrow> dist (edge G) a x \<le> Suc (dist (edge G) a (hd Q))) \<and>
     (\<forall>u \<in> fst ` set V - set Q. \<forall>w. edge G u w \<longrightarrow> w \<in> fst ` set V)"

text \<open>The rooms that occur in some pair of the adjacency dictionary.\<close>

definition vertices :: "rigid_relations \<Rightarrow> string set" where
  "vertices rr = fst ` set (adjacent rr) \<union> snd ` set (adjacent rr)"

text \<open>\<open>connected rr a b\<close>: some route along adjacent rooms leads from \<open>a\<close> to \<open>b\<close>.\<close>

definition connected :: "rigid_relations \<Rightarrow> string \<Rightarrow> string \<Rightarrow> bool" where
  "connected rr a b = (\<exists>p. joins (is_adjacent rr) a p b)"

section \<open>Frame and capacity properties of the operators\<close>

lemma move_body_rigid: "rigid_after (move_body rr s R e) = rr"
  by (simp add: move_body_def Let_def split: sum.splits)

lemma drop_body_rigid: "rigid_after (drop_body rr s R c) = rr"
  by (simp add: drop_body_def Let_def split: sum.splits)

text \<open>
  C4. Each of the four planning operators \<open>move\<close>, \<open>pickup\<close>, \<open>drop\<close> and \<open>recharge\<close>,
  on any state and any arguments, leaves the rigid relations (types and adjacency) as
  they were, whether it returns the state, returns \<open>False\<close> or raises.
\<close>

theorem operators_keep_rigid_relations:
  "rigid_after (move rr s R a b) = rr \<and>
   rigid_after (pickup rr s R c) = rr \<and>
   rigid_after (drop_op rr s R c) = rr \<and>
   rigid_after (recharge rr s R) = rr"
  by (simp add: move_def pickup_def drop_op_def recharge_def Let_def
      move_body_rigid drop_body_rigid split: sum.splits)

lemma move_body_cargo: "cargo (state_after (move_body rr s R e)) = cargo s"
  by (simp add: move_body_def Let_def split: sum.splits)

lemma move_cargo: "cargo (state_after (move rr s R a b)) = cargo s"
  by (simp add: move_def move_body_cargo split: sum.splits)

lemma recharge_cargo: "cargo (state_after (recharge rr s R)) = cargo s"
  by (simp add: recharge_def Let_def split: sum.splits)

lemma pickup_bounded:
  assumes "cargo_bounded s"
  shows "cargo_bounded (state_after (pickup rr s R c))"
  using assms
  by (auto simp: pickup_def Let_def lookup_def cargo_bounded_def split: option.splits)

lemma length_remove1_le: "length (remove1 c held) \<le> length held"
  by (induction held) auto

lemma drop_body_bounded:
  assumes "cargo_bounded s"
  shows "cargo_bounded (state_after (drop_body rr s R c))"
proof -
  have "length (remove1 c held) \<le> 1" if "cargo s R = Some held" for held
    using assms that length_remove1_le [of c held]
    by (fastforce simp: cargo_bounded_def)
  with assms show ?thesis
    by (auto simp: drop_body_def Let_def lookup_def cargo_bounded_def split: option.splits)
qed

lemma drop_bounded:
  assumes "cargo_bounded s"
  shows "cargo_bounded (state_after (drop_op rr s R c))"
  using assms drop_body_bounded [OF assms]
  by (simp add: drop_op_def Let_def lookup_def split: option.splits)

text \<open>
  C5. From a state in which every cargo list holds at most one container, each of \<open>move\<close>,
  \<open>pickup\<close>, \<open>drop\<close> and \<open>recharge\<close> leaves a state with the same property (whatever the
  outcome of the call, so in particular when it succeeds), and \<open>pickup\<close> returns \<open>False\<close>
  without touching the state whenever the robot's cargo list is not empty.
\<close>

theorem cargo_capacity_preserved:
  assumes "cargo_bounded s"
  shows "cargo_bounded (state_after (move rr s R a b)) \<and>
         cargo_bounded (state_after (pickup rr s R c)) \<and>
         cargo_bounded (state_after (drop_op rr s R c)) \<and>
         cargo_bounded (state_after (recharge rr s R)) \<and>
         (\<forall>x held. cargo s R = Some (x # held) \<longrightarrow> pickup rr s R c = Effect (Inr False) rr s)"
proof -
  have "cargo_bounded (state_after (move rr s R a b))"
    using assms by (simp add: cargo_bounded_def move_cargo)
  moreover have "cargo_bounded (state_after (recharge rr s R))"
    using assms by (simp add: cargo_bounded_def recharge_cargo)
  moreover have "\<forall>x held. cargo s R = Some (x # held) \<longrightarrow> pickup rr s R c = Effect (Inr False) rr s"
    by (auto simp: pickup_def Let_def lookup_def)
  ultimately show ?thesis
    using pickup_bounded [OF assms] drop_bounded [OF assms] by blast
qed

lemma state0_bounded: "cargo_bounded state0"
  by (simp add: cargo_bounded_def state0_def)

lemma pickup_state0:
  "pickup rigid0 state0 ''R1'' ''c1'' =
     Effect (Inr True) rigid0 (state0\<lparr>cargo := [''R1'' \<mapsto> [''c1'']], loc := (loc state0)(''c1'' \<mapsto> ''R1'')\<rparr>)"
  by (simp add: pickup_def is_a_def rigid0_def lookup_def state0_def)

theorem cargo_capacity_preserved_witness:
  "cargo_bounded state0 \<and>
   returned (pickup rigid0 state0 ''R1'' ''c1'') = Inr True \<and>
   cargo (state_after (pickup rigid0 state0 ''R1'' ''c1'')) ''R1'' = Some [''c1''] \<and>
   cargo_bounded (state_after (pickup rigid0 state0 ''R1'' ''c1'')) \<and>
   pickup rigid0 (state_after (pickup rigid0 state0 ''R1'' ''c1'')) ''R1'' ''c2'' =
     Effect (Inr False) rigid0 (state_after (pickup rigid0 state0 ''R1'' ''c1''))"
proof -
  let ?s = "state_after (pickup rigid0 state0 ''R1'' ''c1'')"
  have held: "cargo ?s ''R1'' = Some [''c1'']"
    by (simp add: pickup_state0)
  have b: "cargo_bounded ?s"
    using cargo_capacity_preserved [OF state0_bounded, of rigid0 "''R1''" "''room1''" "''room2''" "''c1''"]
    by blast
  have "pickup rigid0 ?s ''R1'' ''c2'' = Effect (Inr False) rigid0 ?s"
    using cargo_capacity_preserved [OF b, of rigid0 "''R1''" "''room1''" "''room2''" "''c2''"] held
    by blast
  with held b state0_bounded show ?thesis
    by (simp add: pickup_state0)
qed

text \<open>
  C8. \<open>pickup\<close> succeeds in every state in which \<open>R\<close> is a robot, \<open>c\<close> is an object and
  the cargo list of \<open>R\<close> is empty: it sets \<open>cargo[R]\<close> to \<open>[c]\<close> and \<open>loc[c]\<close> to \<open>R\<close>,
  wherever \<open>c\<close> and \<open>R\<close> are (the locations are not read). It returns \<open>False\<close> exactly
  when the type check fails or the cargo list is not empty.
\<close>

theorem pickup_ignores_location:
  "(is_a rr R Robot \<and> is_a rr c Object \<and> cargo s R = Some [] \<longrightarrow>
      pickup rr s R c =
        Effect (Inr True) rr (s\<lparr>cargo := (cargo s)(R \<mapsto> [c]), loc := (loc s)(c \<mapsto> R)\<rparr>)) \<and>
   (returned (pickup rr s R c) = Inr False \<longleftrightarrow>
      \<not> (is_a rr R Robot \<and> is_a rr c Object) \<or> (\<exists>x held. cargo s R = Some (x # held)))"
  by (cases "cargo s R"; cases "the (cargo s R)")
     (auto simp: pickup_def Let_def lookup_def)

theorem pickup_ignores_location_witness:
  "is_a rigid0 ''R1'' Robot \<and> is_a rigid0 ''c1'' Object \<and> cargo state0 ''R1'' = Some [] \<and>
   loc state0 ''c1'' = Some ''room4'' \<and> loc state0 ''R1'' = Some ''room1'' \<and>
   pickup rigid0 state0 ''R1'' ''c1'' =
     Effect (Inr True) rigid0
       (state0\<lparr>cargo := (cargo state0)(''R1'' \<mapsto> [''c1'']), loc := (loc state0)(''c1'' \<mapsto> ''R1'')\<rparr>)"
proof -
  have h: "is_a rigid0 ''R1'' Robot \<and> is_a rigid0 ''c1'' Object \<and> cargo state0 ''R1'' = Some []"
    by (simp add: is_a_def rigid0_def state0_def)
  moreover have "loc state0 ''c1'' = Some ''room4'' \<and> loc state0 ''R1'' = Some ''room1''"
    by (simp add: state0_def)
  ultimately show ?thesis
    using pickup_ignores_location [of rigid0 "''R1''" "''c1''" state0] by blast
qed

section \<open>Correctness of the breadth-first search\<close>

lemma route_snoc: "route E a (p @ [b]) \<longleftrightarrow> route E a p \<and> E (last (a # p)) b"
  by (induction p arbitrary: a) auto

lemma hops_0: "hops E a b 0 \<longleftrightarrow> a = b"
  by (auto simp: hops_def joins_def)

lemma hops_Suc: "hops E a b (Suc n) \<longleftrightarrow> (\<exists>u. hops E a u n \<and> E u b)"
proof
  assume "hops E a b (Suc n)"
  then obtain p where p: "route E a p" "last (a # p) = b" "length p = Suc n"
    unfolding hops_def joins_def by blast
  then obtain q x where q: "p = q @ [x]"
    by (cases p rule: rev_cases) auto
  with p have "route E a q" "E (last (a # q)) b" "length q = n"
    by (auto simp: route_snoc)
  then have "hops E a (last (a # q)) n \<and> E (last (a # q)) b"
    unfolding hops_def joins_def by blast
  then show "\<exists>u. hops E a u n \<and> E u b" ..
next
  assume "\<exists>u. hops E a u n \<and> E u b"
  then obtain u q where "route E a q" "last (a # q) = u" "length q = n" "E u b"
    unfolding hops_def joins_def by blast
  then have "joins E a (q @ [b]) b \<and> length (q @ [b]) = Suc n"
    unfolding joins_def route_snoc by simp
  then show "hops E a b (Suc n)"
    unfolding hops_def by blast
qed

lemma dist_hops: "hops E a b n \<Longrightarrow> hops E a b (dist E a b)"
  unfolding dist_def by (rule LeastI)

lemma dist_le: "hops E a b n \<Longrightarrow> dist E a b \<le> n"
  unfolding dist_def by (rule Least_le)

lemma dist_self: "dist E a a = 0"
  using dist_le [of E a a 0] by (simp add: hops_0)

lemma dist_step:
  assumes "hops E a u n" "E u v"
  shows "dist E a v \<le> Suc (dist E a u)"
proof -
  have "hops E a v (Suc (dist E a u))"
    using dist_hops [OF assms(1)] assms(2) by (auto simp: hops_Suc)
  then show ?thesis by (rule dist_le)
qed

lemma dist_pred:
  assumes "hops E a v n" "dist E a v = Suc k"
  shows "\<exists>u m. hops E a u m \<and> E u v \<and> dist E a u = k"
proof -
  have "hops E a v (Suc k)"
    using dist_hops [OF assms(1)] assms(2) by simp
  then obtain u where u: "hops E a u k" "E u v"
    by (auto simp: hops_Suc)
  have "dist E a u \<le> k"
    using u(1) by (rule dist_le)
  moreover have "Suc k \<le> Suc (dist E a u)"
    using dist_step [OF u] assms(2) by simp
  ultimately have "dist E a u = k" by simp
  with u show ?thesis by blast
qed

lemma bfs_inv_suffix: "bfs_inv G a V Q \<Longrightarrow> \<exists>P. map fst V = P @ Q"
  by (simp add: bfs_inv_def)

lemma bfs_inv_distinct: "bfs_inv G a V Q \<Longrightarrow> distinct (map fst V)"
  by (simp add: bfs_inv_def)

lemma bfs_inv_start: "bfs_inv G a V Q \<Longrightarrow> map_of V a = Some None"
  by (simp add: bfs_inv_def)

lemma bfs_inv_root: "bfs_inv G a V Q \<Longrightarrow> map_of V v = Some None \<Longrightarrow> v = a"
  by (simp add: bfs_inv_def)

lemma bfs_inv_parent:
  "bfs_inv G a V Q \<Longrightarrow> map_of V v = Some (Some p) \<Longrightarrow>
     p \<in> fst ` set V \<and> edge G p v \<and> reach G a p \<and> dist (edge G) a v = Suc (dist (edge G) a p)"
  by (simp add: bfs_inv_def)

lemma bfs_inv_sorted: "bfs_inv G a V Q \<Longrightarrow> sorted (map (dist (edge G) a) (map fst V))"
  by (simp add: bfs_inv_def)

lemma bfs_inv_bound:
  "bfs_inv G a V Q \<Longrightarrow> x \<in> fst ` set V \<Longrightarrow> Q \<noteq> [] \<Longrightarrow> dist (edge G) a x \<le> Suc (dist (edge G) a (hd Q))"
  by (auto simp: bfs_inv_def)

lemma bfs_inv_closed:
  "bfs_inv G a V Q \<Longrightarrow> u \<in> fst ` set V \<Longrightarrow> u \<notin> set Q \<Longrightarrow> edge G u w \<Longrightarrow> w \<in> fst ` set V"
  by (simp add: bfs_inv_def)

lemma key_lookup: "v \<in> fst ` set V \<longleftrightarrow> (\<exists>par. map_of V v = Some par)"
  using map_of_eq_None_iff [of V v] by auto

lemma reach_self: "reach G a a"
  unfolding reach_def using hops_0 [of "edge G" a a] by blast

lemma reach_step: "reach G a u \<Longrightarrow> edge G u v \<Longrightarrow> reach G a v"
  unfolding reach_def using hops_Suc [of "edge G" a v] by blast

lemma bfs_inv_init: "bfs_inv G a [(a, None)] [a]"
  by (simp add: bfs_inv_def dist_self)

lemma bfs_inv_reach:
  assumes "bfs_inv G a V Q" "v \<in> fst ` set V"
  shows "reach G a v"
proof -
  from assms(2) obtain par where par: "map_of V v = Some par"
    unfolding key_lookup by blast
  show ?thesis
  proof (cases par)
    case None
    with par have "v = a"
      using bfs_inv_root [OF assms(1)] by simp
    then show ?thesis by (simp add: reach_self)
  next
    case (Some p)
    with par have "reach G a p \<and> edge G p v"
      using bfs_inv_parent [OF assms(1), of v p] by simp
    then show ?thesis using reach_step by blast
  qed
qed

lemma bfs_inv_queue_sorted:
  assumes "bfs_inv G a V (u # rest)" "y \<in> set rest"
  shows "dist (edge G) a u \<le> dist (edge G) a y"
proof -
  from bfs_inv_suffix [OF assms(1)] obtain P where P: "map fst V = P @ u # rest"
    by blast
  have "sorted (map (dist (edge G) a) (P @ u # rest))"
    using bfs_inv_sorted [OF assms(1)] P by simp
  with assms(2) show ?thesis
    by (simp add: sorted_append)
qed

lemma bfs_inv_near:
  assumes inv: "bfs_inv G a V (u # rest)"
  shows "reach G a w \<Longrightarrow> dist (edge G) a w \<le> dist (edge G) a u \<Longrightarrow> w \<in> fst ` set V"
proof (induction "dist (edge G) a w" arbitrary: w)
  case 0
  then obtain n where "hops (edge G) a w n"
    unfolding reach_def by blast
  from dist_hops [OF this] 0 have "w = a"
    by (simp add: hops_0)
  then show ?case
    using bfs_inv_start [OF inv] unfolding key_lookup by simp
next
  case (Suc k)
  from Suc.prems(1) obtain n where "hops (edge G) a w n"
    unfolding reach_def by blast
  from dist_pred [OF this Suc.hyps(2) [symmetric]]
  obtain x m where x: "hops (edge G) a x m" "edge G x w" "dist (edge G) a x = k"
    by blast
  have rx: "reach G a x"
    using x(1) unfolding reach_def by blast
  have less: "dist (edge G) a x < dist (edge G) a u"
    using x(3) Suc.hyps(2) Suc.prems(2) by simp
  have xV: "x \<in> fst ` set V"
    using Suc.hyps(1) [of x] x(3) rx less by simp
  have "x \<noteq> u"
    using less by auto
  moreover have "x \<notin> set rest"
    using bfs_inv_queue_sorted [OF inv, of x] less by auto
  ultimately have "x \<notin> set (u # rest)" by simp
  then show ?case
    using bfs_inv_closed [OF inv xV _ x(2)] by blast
qed

lemma map_of_children:
  "map_of (map (\<lambda>n. (n, Some node)) xs) v = (if v \<in> set xs then Some (Some node) else None)"
  by (induction xs) auto

lemma map_of_extended:
  "map_of (V @ map (\<lambda>n. (n, Some node)) xs) v =
     (case map_of V v of Some y \<Rightarrow> Some y | None \<Rightarrow> if v \<in> set xs then Some (Some node) else None)"
  by (simp add: map_of_append map_add_def map_of_children split: option.splits)

lemma keys_extended: "map fst (V @ map (\<lambda>n. (n, Some node)) xs) = map fst V @ xs"
  by (simp add: comp_def)

lemma sorted_constant: "(\<forall>y \<in> set xs. f y = c) \<Longrightarrow> sorted (map f xs)"
  by (induction xs) auto

lemma bfs_inv_step:
  assumes inv: "bfs_inv G a V (u # rest)" and ns: "map_of G u = Some ns"
  shows "bfs_inv G a (V @ map (\<lambda>n. (n, Some u)) (fresh (fst ` set V) ns)) (rest @ fresh (fst ` set V) ns)"
proof -
  let ?d = "dist (edge G) a"
  let ?new = "fresh (fst ` set V) ns"
  let ?V = "V @ map (\<lambda>n. (n, Some u)) ?new"
  from bfs_inv_suffix [OF inv] obtain P where P: "map fst V = P @ u # rest"
    by blast
  have keysV: "fst ` set V = set P \<union> insert u (set rest)"
    using arg_cong [OF P, of set] by simp
  have keys: "fst ` set ?V = fst ` set V \<union> set ?new"
    by (auto simp: image_Un image_image)
  have uV: "u \<in> fst ` set V"
    using keysV by simp
  have ru: "reach G a u"
    using bfs_inv_reach [OF inv uV] .
  have new_fresh: "n \<notin> fst ` set V" if "n \<in> set ?new" for n
    using that by (simp add: set_fresh)
  have new_edge: "edge G u n" if "n \<in> set ?new" for n
    using that ns by (auto simp: set_fresh edge_def)
  have new_reach: "reach G a n" if "n \<in> set ?new" for n
    using reach_step [OF ru new_edge [OF that]] .
  have new_dist: "?d n = Suc (?d u)" if "n \<in> set ?new" for n
  proof -
    from ru obtain m where "hops (edge G) a u m"
      unfolding reach_def by blast
    then have "?d n \<le> Suc (?d u)"
      using new_edge [OF that] by (rule dist_step)
    moreover have "\<not> ?d n \<le> ?d u"
      using bfs_inv_near [OF inv new_reach [OF that]] new_fresh [OF that] by blast
    ultimately show ?thesis by simp
  qed
  have old_bound: "?d x \<le> Suc (?d u)" if "x \<in> fst ` set V" for x
    using bfs_inv_bound [OF inv that] by simp
  have c1: "\<exists>P'. map fst ?V = P' @ rest @ ?new"
  proof
    show "map fst ?V = (P @ [u]) @ rest @ ?new"
      unfolding keys_extended using P by simp
  qed
  have c2: "distinct (map fst ?V)"
    unfolding keys_extended
    using bfs_inv_distinct [OF inv] new_fresh
    by (auto simp: distinct_fresh)
  have c3: "map_of ?V a = Some None"
    unfolding map_of_extended using bfs_inv_start [OF inv] by simp
  have c4: "v = a" if "map_of ?V v = Some None" for v
    using that [unfolded map_of_extended] bfs_inv_root [OF inv, of v]
    by (auto split: option.splits if_splits)
  have c5: "p \<in> fst ` set ?V \<and> edge G p v \<and> reach G a p \<and> ?d v = Suc (?d p)"
    if "map_of ?V v = Some (Some p)" for v p
  proof (cases "map_of V v")
    case None
    with that [unfolded map_of_extended] have "v \<in> set ?new" "p = u"
      by (auto split: if_splits)
    then show ?thesis
      using uV ru new_edge new_dist keys by auto
  next
    case (Some y)
    with that [unfolded map_of_extended] have "map_of V v = Some (Some p)"
      by simp
    from bfs_inv_parent [OF inv this] show ?thesis
      using keys by auto
  qed
  have c6: "sorted (map ?d (map fst ?V))"
  proof -
    have "sorted (map ?d (map fst V))"
      using bfs_inv_sorted [OF inv] .
    moreover have "sorted (map ?d ?new)"
      using new_dist by (intro sorted_constant [where c = "Suc (?d u)"]) simp
    moreover have "\<forall>x \<in> set (map fst V). \<forall>y \<in> set ?new. ?d x \<le> ?d y"
      using old_bound new_dist by auto
    ultimately have "sorted (map ?d (map fst V @ ?new))"
      by (simp add: sorted_append)
    then show ?thesis
      unfolding keys_extended .
  qed
  have c7: "?d x \<le> Suc (?d (hd (rest @ ?new)))"
    if "x \<in> fst ` set ?V" "rest @ ?new \<noteq> []" for x
  proof -
    have "hd (rest @ ?new) \<in> set rest \<union> set ?new"
      using that(2) hd_in_set [of "rest @ ?new"] by auto
    then have "?d u \<le> ?d (hd (rest @ ?new))"
      using bfs_inv_queue_sorted [OF inv] new_dist by auto
    moreover have "?d x \<le> Suc (?d u)"
      using that(1) keys old_bound new_dist by auto
    ultimately show ?thesis by simp
  qed
  have c8: "w \<in> fst ` set ?V"
    if "u' \<in> fst ` set ?V - set (rest @ ?new)" "edge G u' w" for u' w
  proof (cases "u' = u")
    case True
    with that(2) ns have "w \<in> set ns"
      by (simp add: edge_def)
    then show ?thesis
      using keys by (auto simp: set_fresh)
  next
    case False
    with that(1) keys have "u' \<in> fst ` set V" "u' \<notin> set (u # rest)"
      by auto
    from bfs_inv_closed [OF inv this that(2)] show ?thesis
      using keys by simp
  qed
  show ?thesis
    unfolding bfs_inv_def
    using c1 c2 c3 c4 c5 c6 c7 c8 by blast
qed

subsection \<open>The result of the search\<close>

lemma search_from_inv:
  assumes "search_from G a target = Inr V"
  shows "\<exists>Q. bfs_inv G a V Q \<and> (Q = [] \<or> Some (hd Q) = target)"
proof (rule search_invariant [where P = "bfs_inv G a", OF assms [unfolded search_from_def]])
  show "bfs_inv G a [(a, None)] [a]"
    by (rule bfs_inv_init)
next
  fix V node Q ns
  assume "bfs_inv G a V (node # Q)" "map_of G node = Some ns"
  then show "bfs_inv G a (V @ map (\<lambda>n. (n, Some node)) (fresh (fst ` set V) ns)) (Q @ fresh (fst ` set V) ns)"
    by (rule bfs_inv_step)
qed

lemma bfs_inv_complete:
  assumes inv: "bfs_inv G a V []"
  shows "hops (edge G) a w n \<Longrightarrow> w \<in> fst ` set V"
proof (induction n arbitrary: w)
  case 0
  then have "w = a" by (simp add: hops_0)
  then show ?case
    using bfs_inv_start [OF inv] unfolding key_lookup by simp
next
  case (Suc n)
  then obtain x where x: "hops (edge G) a x n" "edge G x w"
    by (auto simp: hops_Suc)
  from Suc.IH [OF x(1)] have "x \<in> fst ` set V" .
  from bfs_inv_closed [OF inv this _ x(2)] show ?case by simp
qed

lemma search_from_visited:
  assumes "search_from G a (Some b) = Inr V"
  shows "b \<in> fst ` set V \<longleftrightarrow> reach G a b"
proof -
  from search_from_inv [OF assms] obtain Q
    where inv: "bfs_inv G a V Q" and Q: "Q = [] \<or> Some (hd Q) = Some b"
    by blast
  show ?thesis
  proof
    assume "b \<in> fst ` set V"
    then show "reach G a b" by (rule bfs_inv_reach [OF inv])
  next
    assume r: "reach G a b"
    show "b \<in> fst ` set V"
    proof (cases "Q = []")
      case True
      with inv r show ?thesis
        unfolding reach_def using bfs_inv_complete by blast
    next
      case False
      with Q have "b \<in> set Q"
        using hd_in_set [of Q] by auto
      moreover from bfs_inv_suffix [OF inv] obtain P where "map fst V = P @ Q" by blast
      then have "fst ` set V = set P \<union> set Q"
        by (metis set_map set_append)
      ultimately show ?thesis by simp
    qed
  qed
qed

lemma search_from_all:
  assumes "search_from G a None = Inr V"
  shows "bfs_inv G a V []"
  using search_from_inv [OF assms] by auto

lemma trace_back_route:
  assumes run: "search_from G a target = Inr V"
  shows "prev \<in> fst ` set V \<Longrightarrow>
     \<exists>chain. trace_back G a target prev acc = Inr (acc @ chain) \<and>
       length chain = dist (edge G) a prev \<and>
       route (edge G) a (rev chain) \<and> last (a # rev chain) = prev"
proof (induction "dist (edge G) a prev" arbitrary: prev acc)
  case 0
  from search_from_inv [OF run] obtain Q where inv: "bfs_inv G a V Q" by blast
  from 0(2) obtain par where par: "map_of V prev = Some par"
    unfolding key_lookup by blast
  have "par = None"
  proof (cases par)
    case (Some p)
    with par bfs_inv_parent [OF inv, of prev p] 0(1) show ?thesis by simp
  qed simp
  with par have "trace_back G a target prev acc = Inr acc"
    by (subst trace_back.simps) (simp add: run)
  moreover have "prev = a"
    using bfs_inv_root [OF inv, of prev] par \<open>par = None\<close> by simp
  ultimately show ?case
    using 0(1) by simp
next
  case (Suc k)
  from search_from_inv [OF run] obtain Q where inv: "bfs_inv G a V Q" by blast
  from Suc.prems obtain par where par: "map_of V prev = Some par"
    unfolding key_lookup by blast
  have "par \<noteq> None"
  proof
    assume "par = None"
    with par have "prev = a"
      using bfs_inv_root [OF inv, of prev] by simp
    with Suc.hyps(2) show False by (simp add: dist_self)
  qed
  then obtain p where p: "map_of V prev = Some (Some p)"
    using par by auto
  from bfs_inv_parent [OF inv p]
  have pV: "p \<in> fst ` set V" and e: "edge G p prev" and d: "dist (edge G) a prev = Suc (dist (edge G) a p)"
    by simp_all
  have "k = dist (edge G) a p"
    using d Suc.hyps(2) by simp
  from Suc.hyps(1) [OF this pV, of "acc @ [prev]"]
  obtain chain where chain: "trace_back G a target p (acc @ [prev]) = Inr ((acc @ [prev]) @ chain)"
    "length chain = dist (edge G) a p" "route (edge G) a (rev chain)" "last (a # rev chain) = p"
    by blast
  have "trace_back G a target prev acc = Inr (acc @ prev # chain)"
    using chain(1) p by (subst trace_back.simps) (simp add: run)
  moreover have "length (prev # chain) = dist (edge G) a prev"
    using chain(2) d by simp
  moreover have "route (edge G) a (rev (prev # chain))"
    using chain(3,4) e by (simp add: route_snoc del: last.simps)
  moreover have "last (a # rev (prev # chain)) = prev"
    by simp
  ultimately show ?case by blast
qed

lemma search_total:
  assumes "\<forall>q \<in> set Q. map_of G q \<noteq> None"
    and "\<forall>n \<in> graph_nodes G. map_of G n \<noteq> None"
  shows "\<exists>V'. search G target V Q = Inr V'"
  using assms
proof (induction G target V Q rule: search.induct)
  case (1 G target visited)
  show ?case by simp
next
  case (2 G target visited node queue)
  show ?case
  proof (cases "Some node = target")
    case True
    then show ?thesis by simp
  next
    case False
    from "2.prems"(1) obtain ns where ns: "map_of G node = Some ns"
      by auto
    let ?new = "fresh (fst ` set visited) ns"
    have "\<forall>q \<in> set (queue @ ?new). map_of G q \<noteq> None"
      using "2.prems" neighbors_in_graph_nodes [OF ns] by (auto simp: set_fresh)
    from "2.IH" [OF False ns visit_neighbors_fresh [symmetric] this "2.prems"(2)]
    show ?thesis
      using False ns by (simp add: visit_neighbors_fresh)
  qed
qed

subsection \<open>The graph built from the adjacency dictionary\<close>

text \<open>
  The rooms that occur in some adjacency pair are the keys of \<open>G\<close>, and \<open>G\<close> has an edge
  from \<open>u\<close> to \<open>v\<close> exactly when \<open>is_adjacent\<close> holds of them.
\<close>

lemma map_of_add_node:
  "map_of (add_node G x) k = (if k = x \<and> map_of G x = None then Some [] else map_of G k)"
  by (auto simp: add_node_def map_of_append map_add_def split: option.splits)

lemma map_of_add_neighbor:
  "map_of (add_neighbor G x y) k =
     (if k = x then map_option (\<lambda>ns. if y \<in> set ns then ns else ns @ [y]) (map_of G x) else map_of G k)"
  unfolding add_neighbor_def by (induction G) auto

lemma edge_add_node: "edge (add_node G x) u v \<longleftrightarrow> edge G u v"
  by (auto simp: edge_def map_of_add_node)

lemma edge_add_neighbor:
  assumes "map_of G x \<noteq> None"
  shows "edge (add_neighbor G x y) u v \<longleftrightarrow> edge G u v \<or> (u = x \<and> v = y)"
proof -
  from assms obtain ns where ns: "map_of G x = Some ns" by auto
  show ?thesis
  proof (cases "u = x")
    case True
    then show ?thesis
      using ns by (cases "y \<in> set ns") (auto simp: edge_def map_of_add_neighbor)
  next
    case False
    then show ?thesis
      by (simp add: edge_def map_of_add_neighbor)
  qed
qed

lemma build_graph_edge:
  "edge (build_graph es G) u v \<longleftrightarrow> edge G u v \<or> (u, v) \<in> set es \<or> (v, u) \<in> set es"
proof (induction es arbitrary: G)
  case Nil
  show ?case by simp
next
  case (Cons e es)
  obtain x y where e: "e = (x, y)" by (cases e)
  let ?G1 = "add_node (add_node G x) y"
  let ?G2 = "add_neighbor ?G1 x y"
  have x1: "map_of ?G1 x \<noteq> None" and y1: "map_of ?G1 y \<noteq> None"
    by (auto simp: map_of_add_node)
  have y2: "map_of ?G2 y \<noteq> None"
    using y1 by (auto simp: map_of_add_neighbor)
  have "edge (add_neighbor ?G2 y x) u v \<longleftrightarrow> edge G u v \<or> (u = x \<and> v = y) \<or> (u = y \<and> v = x)"
    unfolding edge_add_neighbor [OF y2] edge_add_neighbor [OF x1] edge_add_node by blast
  then show ?case
    using Cons.IH [of "add_neighbor ?G2 y x"] e by auto
qed

lemma build_graph_keys:
  "map_of (build_graph es G) k \<noteq> None \<longleftrightarrow>
     map_of G k \<noteq> None \<or> k \<in> fst ` set es \<or> k \<in> snd ` set es"
proof (induction es arbitrary: G)
  case Nil
  show ?case by simp
next
  case (Cons e es)
  obtain x y where e: "e = (x, y)" by (cases e)
  let ?G = "add_neighbor (add_neighbor (add_node (add_node G x) y) x y) y x"
  have "map_of ?G k \<noteq> None \<longleftrightarrow> map_of G k \<noteq> None \<or> k = x \<or> k = y"
    by (auto simp: map_of_add_neighbor map_of_add_node)
  then show ?case
    using Cons.IH [of ?G] e by auto
qed

lemma graph_of_edge: "edge (graph_of rr) u v \<longleftrightarrow> is_adjacent rr u v"
  unfolding graph_of_def build_graph_edge is_adjacent_def Let_def by (simp add: edge_def)

lemma graph_of_keys: "map_of (graph_of rr) k \<noteq> None \<longleftrightarrow> k \<in> vertices rr"
  unfolding graph_of_def build_graph_keys vertices_def by simp

lemma keys_add_node: "distinct (map fst G) \<Longrightarrow> distinct (map fst (add_node G x))"
  by (auto simp: add_node_def map_of_eq_None_iff)

lemma keys_add_neighbor: "map fst (add_neighbor G x y) = map fst G"
  unfolding add_neighbor_def by (induction G) auto

lemma build_graph_distinct: "distinct (map fst G) \<Longrightarrow> distinct (map fst (build_graph es G))"
proof (induction es arbitrary: G)
  case Nil
  then show ?case by simp
next
  case (Cons e es)
  obtain x y where e: "e = (x, y)" by (cases e)
  have "distinct (map fst (add_neighbor (add_neighbor (add_node (add_node G x) y) x y) y x))"
    unfolding keys_add_neighbor using Cons.prems by (intro keys_add_node)
  from Cons.IH [OF this] e show ?case by simp
qed

lemma adjacent_vertices: "is_adjacent rr u v \<Longrightarrow> u \<in> vertices rr \<and> v \<in> vertices rr"
  by (force simp: is_adjacent_def vertices_def)

lemma graph_of_closed: "\<forall>n \<in> graph_nodes (graph_of rr). map_of (graph_of rr) n \<noteq> None"
proof
  fix n assume "n \<in> graph_nodes (graph_of rr)"
  then obtain k ns where "(k, ns) \<in> set (graph_of rr)" "n \<in> set ns"
    by (auto simp: graph_nodes_def)
  moreover have "distinct (map fst (graph_of rr))"
    unfolding graph_of_def by (rule build_graph_distinct) simp
  ultimately have "edge (graph_of rr) k n"
    by (auto simp: edge_def)
  then show "map_of (graph_of rr) n \<noteq> None"
    unfolding graph_of_edge graph_of_keys using adjacent_vertices by blast
qed

lemma search_extends:
  assumes "search G target V Q = Inr V'"
  shows "\<exists>W. V' = V @ W"
proof -
  have "\<exists>Q'. (\<exists>W. V' = V @ W) \<and> (Q' = [] \<or> Some (hd Q') = target)"
    by (rule search_invariant [where P = "\<lambda>V1 Q1. \<exists>W. V1 = V @ W", OF assms]) auto
  then show ?thesis by blast
qed

lemma station_search_search:
  "station_search G cs (map fst V) Q S =
     (case search G None V Q of
        Inl e \<Rightarrow> Inl e
      | Inr V' \<Rightarrow> Inr (S @ filter (\<lambda>n. n \<in> set cs) (drop (length V) (map fst V'))))"
proof (induction G "None :: string option" V Q arbitrary: S rule: search.induct)
  case (1 G visited)
  show ?case by simp
next
  case (2 G visited node queue)
  show ?case
  proof (cases "map_of G node")
    case None
    then show ?thesis by simp
  next
    case (Some ns)
    let ?new = "fresh (fst ` set visited) ns"
    let ?V = "visited @ map (\<lambda>n. (n, Some node)) ?new"
    let ?S = "S @ filter (\<lambda>n. n \<in> set cs) ?new"
    have keys: "map fst ?V = map fst visited @ ?new"
      by (rule keys_extended)
    have left: "station_search G cs (map fst visited) (node # queue) S =
        station_search G cs (map fst ?V) (queue @ ?new) ?S"
      unfolding keys using Some by (simp add: visit_stations_fresh)
    have right: "search G None visited (node # queue) = search G None ?V (queue @ ?new)"
      using Some by (simp add: visit_neighbors_fresh)
    have ih: "station_search G cs (map fst ?V) (queue @ ?new) ?S =
        (case search G None ?V (queue @ ?new) of
           Inl e \<Rightarrow> Inl e
         | Inr V' \<Rightarrow> Inr (?S @ filter (\<lambda>n. n \<in> set cs) (drop (length ?V) (map fst V'))))"
      by (rule "2.hyps" [OF _ Some visit_neighbors_fresh [symmetric]]) simp
    show ?thesis
    proof (cases "search G None ?V (queue @ ?new)")
      case (Inl e)
      with left right ih show ?thesis by simp
    next
      case (Inr V')
      from search_extends [OF this] obtain W where W: "V' = ?V @ W" by blast
      have "map fst V' = map fst visited @ ?new @ map fst W"
        unfolding W map_append [of fst ?V W] keys by simp
      then have "drop (length visited) (map fst V') = ?new @ map fst W"
        by simp
      moreover have "drop (length ?V) (map fst V') = map fst W"
        unfolding W by simp
      ultimately show ?thesis
        using left right ih Inr by simp
    qed
  qed
qed

subsection \<open>What the searches compute\<close>

lemma edge_graph_of: "edge (graph_of rr) = is_adjacent rr"
  by (intro ext) (rule graph_of_edge)

lemma reach_connected: "reach (graph_of rr) a b \<longleftrightarrow> connected rr a b"
  unfolding reach_def connected_def hops_def edge_graph_of by blast

lemma connected_hops: "connected rr a b \<longleftrightarrow> (\<exists>n. hops (is_adjacent rr) a b n)"
  unfolding connected_def hops_def by blast

lemma stations_from_search:
  assumes "l \<in> vertices rr"
  shows "\<exists>W. search_from (graph_of rr) l None = Inr ((l, None) # W) \<and>
           get_all_charging_station rr l =
             Inr (filter (\<lambda>n. n \<in> set (types rr Charging_stations)) (map fst W))"
proof -
  let ?G = "graph_of rr"
  have "map_of ?G l \<noteq> None"
    using assms unfolding graph_of_keys .
  then have "\<forall>q \<in> set [l]. map_of ?G q \<noteq> None"
    by simp
  then have "\<exists>V'. search ?G None [(l, None)] [l] = Inr V'"
    using graph_of_closed [of rr] by (rule search_total)
  then obtain V' where V': "search ?G None [(l, None)] [l] = Inr V'" by blast
  from search_extends [OF this] obtain W where W: "V' = (l, None) # W" by auto
  have "station_search ?G (types rr Charging_stations) (map fst [(l, None)]) [l] [] =
      Inr (filter (\<lambda>n. n \<in> set (types rr Charging_stations)) (map fst W))"
    using station_search_search [of ?G "types rr Charging_stations" "[(l, None)]" "[l]" "[]"] V' W
    by (simp del: search.simps station_search.simps)
  then show ?thesis
    using V' W by (simp add: get_all_charging_station_def search_from_def del: search.simps station_search.simps)
qed

lemma stations_reached:
  assumes "l \<in> vertices rr"
  shows "\<exists>stations. get_all_charging_station rr l = Inr stations \<and>
           set stations = {s. is_charging_station rr s \<and> connected rr l s \<and> s \<noteq> l} \<and>
           distinct stations \<and>
           sorted (map (dist (is_adjacent rr) l) stations)"
proof -
  let ?G = "graph_of rr"
  let ?cs = "\<lambda>n. n \<in> set (types rr Charging_stations)"
  from stations_from_search [OF assms] obtain W
    where run: "search_from ?G l None = Inr ((l, None) # W)"
      and st: "get_all_charging_station rr l = Inr (filter ?cs (map fst W))"
    by blast
  have inv: "bfs_inv ?G l ((l, None) # W) []"
    using search_from_all [OF run] .
  have dis: "distinct (l # map fst W)"
    using bfs_inv_distinct [OF inv] by simp
  have keys: "insert l (fst ` set W) = {v. connected rr l v}"
  proof (intro set_eqI iffI)
    fix v assume "v \<in> insert l (fst ` set W)"
    then have "v \<in> fst ` set ((l, None) # W)" by simp
    from bfs_inv_reach [OF inv this] show "v \<in> {v. connected rr l v}"
      by (simp add: reach_connected)
  next
    fix v assume "v \<in> {v. connected rr l v}"
    then obtain n where "hops (edge ?G) l v n"
      unfolding edge_graph_of connected_hops by blast
    from bfs_inv_complete [OF inv this] show "v \<in> insert l (fst ` set W)" by simp
  qed
  have "set (filter ?cs (map fst W)) = {s. is_charging_station rr s \<and> connected rr l s \<and> s \<noteq> l}"
    using keys dis by (auto simp: is_charging_station_def)
  moreover have "distinct (filter ?cs (map fst W))"
    using dis by simp
  moreover have "sorted (map (dist (is_adjacent rr) l) (filter ?cs (map fst W)))"
  proof -
    have "sorted (map (dist (edge ?G) l) (l # map fst W))"
      using bfs_inv_sorted [OF inv] by simp
    then have "sorted (map (dist (is_adjacent rr) l) (map fst W))"
      unfolding edge_graph_of by simp
    then show ?thesis by (rule sorted_filter)
  qed
  ultimately show ?thesis using st by blast
qed

lemma connected_self: "connected rr a a"
  unfolding connected_def joins_def by (intro exI [of _ "[]"]) simp

lemma connected_start:
  assumes "connected rr a b" "a \<noteq> b"
  shows "a \<in> vertices rr"
proof -
  from assms(1) obtain p where p: "route (is_adjacent rr) a p" "last (a # p) = b"
    unfolding connected_def joins_def by blast
  with assms(2) obtain x q where "p = x # q"
    by (cases p) auto
  with p(1) have "is_adjacent rr a x" by simp
  then show ?thesis using adjacent_vertices by blast
qed

lemma search_from_total:
  assumes "a \<in> vertices rr"
  shows "\<exists>V. search_from (graph_of rr) a target = Inr V"
proof -
  have "map_of (graph_of rr) a \<noteq> None"
    using assms unfolding graph_of_keys .
  then have "\<forall>q \<in> set [a]. map_of (graph_of rr) q \<noteq> None"
    by simp
  then show ?thesis
    unfolding search_from_def using graph_of_closed [of rr] by (rule search_total)
qed

lemma search_from_off_graph:
  assumes "a \<notin> vertices rr" "target \<noteq> Some a"
  shows "search_from (graph_of rr) a target = Inl KeyError"
proof -
  have "map_of (graph_of rr) a = None"
    using assms(1) graph_of_keys [of rr a] by blast
  then show ?thesis
    using assms(2) by (auto simp: search_from_def)
qed

lemma shortest_path_found:
  assumes "connected rr a b"
  shows "\<exists>path. get_shortest_path rr a (Some b) = Inr (Some path) \<and>
           joins (is_adjacent rr) a path b \<and>
           length path = dist (is_adjacent rr) a b"
proof -
  let ?G = "graph_of rr"
  have "\<exists>V. search_from ?G a (Some b) = Inr V"
  proof (cases "a = b")
    case True
    then show ?thesis by (simp add: search_from_def)
  next
    case False
    from connected_start [OF assms this] show ?thesis
      by (rule search_from_total)
  qed
  then obtain V where V: "search_from ?G a (Some b) = Inr V" by blast
  have bV: "b \<in> fst ` set V"
    using search_from_visited [OF V] assms by (simp add: reach_connected)
  then have look: "map_of V b \<noteq> None"
    unfolding key_lookup by simp
  from trace_back_route [OF V bV, of "[]"] obtain chain
    where chain: "trace_back ?G a (Some b) b [] = Inr chain"
      "length chain = dist (edge ?G) a b" "route (edge ?G) a (rev chain)" "last (a # rev chain) = b"
    by auto
  have "get_shortest_path rr a (Some b) = Inr (Some (rev chain))"
    using V look chain(1) by (auto simp: get_shortest_path_def Let_def)
  moreover have "joins (is_adjacent rr) a (rev chain) b"
    using chain(3,4) unfolding joins_def edge_graph_of by simp
  moreover have "length (rev chain) = dist (is_adjacent rr) a b"
    using chain(2) unfolding edge_graph_of by simp
  ultimately show ?thesis by blast
qed

lemma shortest_path_none:
  assumes "\<not> connected rr a b" "a \<in> vertices rr"
  shows "get_shortest_path rr a (Some b) = Inr None"
proof -
  from search_from_total [OF assms(2)] obtain V
    where V: "search_from (graph_of rr) a (Some b) = Inr V" by blast
  have "b \<notin> fst ` set V"
    using search_from_visited [OF V] assms(1) by (simp add: reach_connected)
  then have "map_of V b = None"
    by (simp add: map_of_eq_None_iff)
  then show ?thesis
    using V by (simp add: get_shortest_path_def Let_def)
qed

lemma shortest_path_off_graph:
  assumes "\<not> connected rr a b" "a \<notin> vertices rr"
  shows "get_shortest_path rr a (Some b) = Inl KeyError"
proof -
  have "a \<noteq> b"
    using assms(1) connected_self by auto
  then have "search_from (graph_of rr) a (Some b) = Inl KeyError"
    using assms(2) by (intro search_from_off_graph) auto
  then show ?thesis
    by (simp add: get_shortest_path_def Let_def)
qed

lemma shortest_path_to_None:
  "get_shortest_path rr a None = (if a \<in> vertices rr then Inr None else Inl KeyError)"
proof (cases "a \<in> vertices rr")
  case True
  from search_from_total [OF this] obtain V
    where "search_from (graph_of rr) a None = Inr V" by blast
  with True show ?thesis
    by (simp add: get_shortest_path_def Let_def)
next
  case False
  then have "search_from (graph_of rr) a None = Inl KeyError"
    by (intro search_from_off_graph) auto
  with False show ?thesis
    by (simp add: get_shortest_path_def Let_def)
qed

lemma no_station_reached:
  assumes "\<not> is_charging_station rr dest"
    and "\<forall>s. is_charging_station rr s \<longrightarrow> \<not> connected rr dest s"
  shows "get_closest_charging_station rr dest = (if dest \<in> vertices rr then Inr None else Inl KeyError)"
proof (cases "dest \<in> vertices rr")
  case True
  from stations_reached [OF this] obtain stations
    where "get_all_charging_station rr dest = Inr stations"
      "set stations = {s. is_charging_station rr s \<and> connected rr dest s \<and> s \<noteq> dest}"
    by blast
  moreover from this(2) assms(2) have "stations = []"
    by (cases stations) auto
  ultimately show ?thesis
    using True assms(1) by (simp add: get_closest_charging_station_def)
next
  case False
  then have "map_of (graph_of rr) dest = None"
    using graph_of_keys [of rr dest] by blast
  then have "get_all_charging_station rr dest = Inl KeyError"
    by (simp add: get_all_charging_station_def)
  then show ?thesis
    using False assms(1) by (simp add: get_closest_charging_station_def)
qed


lemma rigid0_vertices:
  "vertices rigid0 = {''room1'', ''room2'', ''room3'', ''room4'', ''room5'', ''room6'', ''room7'', ''room8'', ''room9''}"
  by (auto simp: vertices_def rigid0_def)

text \<open>
  A room that occurs in no pair of the adjacency dictionary is no key of the graph:
  from \<open>'room10'\<close> nothing is reachable, and \<open>get_shortest_path\<close> and
  \<open>get_closest_charging_station\<close> raise \<open>KeyError\<close> at \<open>G[node]\<close> instead of returning
  \<open>False\<close> and \<open>None\<close>.
\<close>

theorem shortest_path_outside_graph:
  "\<not> connected rigid0 ''room10'' ''room1'' \<and>
   get_shortest_path rigid0 ''room10'' (Some ''room1'') = Inl KeyError \<and>
   get_shortest_path rigid0 ''room10'' (Some ''room1'') \<noteq> Inr None \<and>
   \<not> is_charging_station rigid0 ''room10'' \<and>
   \<not> connected rigid0 ''room10'' ''room3'' \<and>
   \<not> connected rigid0 ''room10'' ''room6'' \<and>
   \<not> connected rigid0 ''room10'' ''room9'' \<and>
   get_closest_charging_station rigid0 ''room10'' = Inl KeyError \<and>
   get_closest_charging_station rigid0 ''room10'' \<noteq> Inr None"
proof -
  have v: "''room10'' \<notin> vertices rigid0"
    by (simp add: rigid0_vertices)
  have n: "\<not> connected rigid0 ''room10'' b" if "b \<noteq> ''room10''" for b
    using connected_start [of rigid0 "''room10''" b] v that by blast
  have p: "get_shortest_path rigid0 ''room10'' (Some ''room1'') = Inl KeyError"
    by code_simp
  have s: "\<not> is_charging_station rigid0 ''room10''"
    by (simp add: is_charging_station_def rigid0_def)
  have c: "get_closest_charging_station rigid0 ''room10'' = Inl KeyError"
    by code_simp
  show ?thesis
    using n [of "''room1''"] n [of "''room3''"] n [of "''room6''"] n [of "''room9''"] s
    unfolding p c by simp
qed

text \<open>
  C9, as amended. When some route leads from \<open>loc1\<close> to \<open>loc2\<close>, \<open>get_shortest_path\<close>
  returns such a route, no route between them has fewer edges, and \<open>distance\<close> is its
  number of edges (\<open>0\<close> from a room to itself). When no route exists \<open>distance\<close> raises:
  for a room \<open>loc1\<close> of the adjacency graph \<open>get_shortest_path\<close> returns \<open>False\<close> and
  \<open>len(False)\<close> is a \<open>TypeError\<close>. The estimate \<open>distance(dest, get_closest_charging_station(dest))\<close> of
  \<open>travel_with1\<close> raises as well when \<open>dest\<close> is no charging station and none is connected
  to it: for a room \<open>dest\<close> of the adjacency graph \<open>get_closest_charging_station\<close> returns
  \<open>None\<close>, and \<open>distance\<close> to \<open>None\<close> is the same \<open>TypeError\<close>.
\<close>

theorem distance_is_shortest_route_length:
  "(connected rr loc1 loc2 \<longrightarrow>
      (\<exists>path. get_shortest_path rr loc1 (Some loc2) = Inr (Some path) \<and>
         joins (is_adjacent rr) loc1 path loc2 \<and>
         (\<forall>p. joins (is_adjacent rr) loc1 p loc2 \<longrightarrow> length path \<le> length p) \<and>
         distance rr loc1 (Some loc2) = Inr (int (length path)))) \<and>
   distance rr loc1 (Some loc1) = Inr 0 \<and>
   (\<not> connected rr loc1 loc2 \<longrightarrow>
      (\<exists>e. distance rr loc1 (Some loc2) = Inl e) \<and>
      (loc1 \<in> vertices rr \<longrightarrow>
         get_shortest_path rr loc1 (Some loc2) = Inr None \<and>
         distance rr loc1 (Some loc2) = Inl TypeError)) \<and>
   (\<not> is_charging_station rr dest \<and> (\<forall>s. is_charging_station rr s \<longrightarrow> \<not> connected rr dest s) \<longrightarrow>
      (\<exists>e. distance_to_station rr dest = Inl e) \<and>
      (dest \<in> vertices rr \<longrightarrow>
         get_closest_charging_station rr dest = Inr None \<and>
         distance_to_station rr dest = Inl TypeError))"
proof -
  have found: "\<exists>path. get_shortest_path rr loc1 (Some loc2) = Inr (Some path) \<and>
         joins (is_adjacent rr) loc1 path loc2 \<and>
         (\<forall>p. joins (is_adjacent rr) loc1 p loc2 \<longrightarrow> length path \<le> length p) \<and>
         distance rr loc1 (Some loc2) = Inr (int (length path))"
    if c: "connected rr loc1 loc2"
  proof -
    from shortest_path_found [OF c] obtain path
      where path: "get_shortest_path rr loc1 (Some loc2) = Inr (Some path)"
        "joins (is_adjacent rr) loc1 path loc2" "length path = dist (is_adjacent rr) loc1 loc2"
      by blast
    have "length path \<le> length p" if "joins (is_adjacent rr) loc1 p loc2" for p
    proof -
      have "hops (is_adjacent rr) loc1 loc2 (length p)"
        unfolding hops_def using that by blast
      from dist_le [OF this] path(3) show ?thesis by simp
    qed
    moreover have "distance rr loc1 (Some loc2) = Inr (int (length path))"
      using path(1) by (simp add: distance_def)
    ultimately show ?thesis using path(1,2) by blast
  qed
  have self: "distance rr loc1 (Some loc1) = Inr 0"
  proof -
    from shortest_path_found [OF connected_self [of rr loc1]] obtain path
      where "get_shortest_path rr loc1 (Some loc1) = Inr (Some path)"
        "length path = dist (is_adjacent rr) loc1 loc1"
      by blast
    then show ?thesis
      by (simp add: distance_def dist_self)
  qed
  have missing: "(\<exists>e. distance rr loc1 (Some loc2) = Inl e) \<and>
      (loc1 \<in> vertices rr \<longrightarrow>
         get_shortest_path rr loc1 (Some loc2) = Inr None \<and>
         distance rr loc1 (Some loc2) = Inl TypeError)"
    if n: "\<not> connected rr loc1 loc2"
    using shortest_path_none [OF n] shortest_path_off_graph [OF n]
    by (cases "loc1 \<in> vertices rr") (simp_all add: distance_def)
  have estimate: "(\<exists>e. distance_to_station rr dest = Inl e) \<and>
      (dest \<in> vertices rr \<longrightarrow>
         get_closest_charging_station rr dest = Inr None \<and>
         distance_to_station rr dest = Inl TypeError)"
    if "\<not> is_charging_station rr dest \<and> (\<forall>s. is_charging_station rr s \<longrightarrow> \<not> connected rr dest s)"
    using no_station_reached [of rr dest] that shortest_path_to_None [of rr dest]
    by (cases "dest \<in> vertices rr") (simp_all add: distance_to_station_def distance_def)
  show ?thesis
    using found self missing estimate by blast
qed


lemma sorted_head_least:
  assumes "sorted (map f xs)" "x \<in> set xs"
  shows "f (hd xs) \<le> f x"
  using assms by (cases xs) auto

text \<open>
  C10. For a room \<open>l\<close> of the adjacency graph, \<open>get_all_charging_station\<close> returns the
  charging stations other than \<open>l\<close> that are connected to \<open>l\<close>, each once, in the order of
  their distance from \<open>l\<close>; \<open>get_closest_charging_station\<close> returns \<open>l\<close> itself when \<open>l\<close>
  is a charging station, else the first of that list, a station at least distance, and
  \<open>None\<close> when the list is empty.
\<close>

theorem charging_stations_by_distance:
  assumes "l \<in> vertices rr"
  shows "\<exists>stations.
     get_all_charging_station rr l = Inr stations \<and>
     set stations = {s. is_charging_station rr s \<and> connected rr l s \<and> s \<noteq> l} \<and>
     distinct stations \<and>
     sorted (map (dist (is_adjacent rr) l) stations) \<and>
     get_closest_charging_station rr l =
       Inr (if is_charging_station rr l then Some l
            else if stations = [] then None else Some (hd stations)) \<and>
     (\<forall>s \<in> set stations. dist (is_adjacent rr) l (hd stations) \<le> dist (is_adjacent rr) l s)"
proof -
  from stations_reached [OF assms] obtain stations
    where st: "get_all_charging_station rr l = Inr stations"
      "set stations = {s. is_charging_station rr s \<and> connected rr l s \<and> s \<noteq> l}"
      "distinct stations" "sorted (map (dist (is_adjacent rr) l) stations)"
    by blast
  have "get_closest_charging_station rr l =
       Inr (if is_charging_station rr l then Some l
            else if stations = [] then None else Some (hd stations))"
    using st(1) by (cases stations) (simp_all add: get_closest_charging_station_def)
  moreover have "\<forall>s \<in> set stations. dist (is_adjacent rr) l (hd stations) \<le> dist (is_adjacent rr) l s"
    using sorted_head_least [OF st(4)] by blast
  ultimately show ?thesis
    using st by blast
qed

lemma rigid0_stations_room1:
  "get_all_charging_station rigid0 ''room1'' = Inr [''room3'', ''room6'', ''room9'']"
  by code_simp

theorem charging_stations_by_distance_witness:
  "''room1'' \<in> vertices rigid0 \<and>
   get_all_charging_station rigid0 ''room1'' = Inr [''room3'', ''room6'', ''room9''] \<and>
   set [''room3'', ''room6'', ''room9''] =
     {s. is_charging_station rigid0 s \<and> connected rigid0 ''room1'' s \<and> s \<noteq> ''room1''} \<and>
   sorted (map (dist (is_adjacent rigid0) ''room1'') [''room3'', ''room6'', ''room9'']) \<and>
   get_closest_charging_station rigid0 ''room1'' = Inr (Some ''room3'')"
proof -
  have v: "''room1'' \<in> vertices rigid0"
    by (simp add: rigid0_vertices)
  from charging_stations_by_distance [OF v] obtain stations
    where st: "get_all_charging_station rigid0 ''room1'' = Inr stations"
      "set stations = {s. is_charging_station rigid0 s \<and> connected rigid0 ''room1'' s \<and> s \<noteq> ''room1''}"
      "sorted (map (dist (is_adjacent rigid0) ''room1'') stations)"
      "get_closest_charging_station rigid0 ''room1'' =
         Inr (if is_charging_station rigid0 ''room1'' then Some ''room1''
              else if stations = [] then None else Some (hd stations))"
    by blast
  have eq: "stations = [''room3'', ''room6'', ''room9'']"
    using st(1) rigid0_stations_room1 by simp
  have "\<not> is_charging_station rigid0 ''room1''"
    by (simp add: is_charging_station_def rigid0_def)
  with st eq v show ?thesis
    by simp
qed

lemma connected_end:
  assumes "connected rr a b" "a \<noteq> b"
  shows "b \<in> vertices rr"
proof -
  from assms(1) obtain p where p: "route (is_adjacent rr) a p" "last (a # p) = b"
    unfolding connected_def joins_def by blast
  with assms(2) obtain q x where q: "p = q @ [x]"
    by (cases p rule: rev_cases) auto
  have "x = b"
    using p(2) unfolding q by simp
  with p(1) q have "is_adjacent rr (last (a # q)) b"
    by (simp add: route_snoc del: last.simps)
  then show ?thesis using adjacent_vertices by blast
qed

lemma rigid0_path_room1_room6:
  "get_shortest_path rigid0 ''room1'' (Some ''room6'') = Inr (Some [''room2'', ''room5'', ''room6''])"
  by code_simp

theorem distance_is_shortest_route_length_witness:
  "connected rigid0 ''room1'' ''room6'' \<and>
   get_shortest_path rigid0 ''room1'' (Some ''room6'') = Inr (Some [''room2'', ''room5'', ''room6'']) \<and>
   distance rigid0 ''room1'' (Some ''room6'') = Inr 3 \<and>
   \<not> connected rigid0 ''room1'' ''room10'' \<and> ''room1'' \<in> vertices rigid0 \<and>
   get_shortest_path rigid0 ''room1'' (Some ''room10'') = Inr None \<and>
   distance rigid0 ''room1'' (Some ''room10'') = Inl TypeError \<and>
   types (rigid0\<lparr>types := (types rigid0)(Charging_stations := [])\<rparr>) Charging_stations = [] \<and>
   get_closest_charging_station (rigid0\<lparr>types := (types rigid0)(Charging_stations := [])\<rparr>) ''room1'' = Inr None \<and>
   distance_to_station (rigid0\<lparr>types := (types rigid0)(Charging_stations := [])\<rparr>) ''room1'' = Inl TypeError"
proof -
  let ?rr = "rigid0\<lparr>types := (types rigid0)(Charging_stations := [])\<rparr>"
  have "joins (is_adjacent rigid0) ''room1'' [''room2'', ''room5'', ''room6''] ''room6''"
    by (simp add: joins_def is_adjacent_def rigid0_def)
  then have c: "connected rigid0 ''room1'' ''room6''"
    unfolding connected_def by blast
  have v: "''room1'' \<in> vertices rigid0"
    by (simp add: rigid0_vertices)
  have n: "\<not> connected rigid0 ''room1'' ''room10''"
    using connected_end [of rigid0 "''room1''" "''room10''"] by (auto simp: rigid0_vertices)
  have v': "''room1'' \<in> vertices ?rr"
    using v by (simp add: vertices_def)
  have h: "\<not> is_charging_station ?rr ''room1'' \<and> (\<forall>s. is_charging_station ?rr s \<longrightarrow> \<not> connected ?rr ''room1'' s)"
    by (simp add: is_charging_station_def)
  from distance_is_shortest_route_length [of rigid0 "''room1''" "''room6''" "''room1''"] c
  obtain path where "get_shortest_path rigid0 ''room1'' (Some ''room6'') = Inr (Some path)"
    "distance rigid0 ''room1'' (Some ''room6'') = Inr (int (length path))"
    by blast
  then have d: "distance rigid0 ''room1'' (Some ''room6'') = Inr 3"
    by (auto simp: rigid0_path_room1_room6)
  have f: "get_shortest_path rigid0 ''room1'' (Some ''room10'') = Inr None \<and>
      distance rigid0 ''room1'' (Some ''room10'') = Inl TypeError"
    using distance_is_shortest_route_length [of rigid0 "''room1''" "''room10''" "''room1''"] n v
    by blast
  have e: "get_closest_charging_station ?rr ''room1'' = Inr None \<and>
      distance_to_station ?rr ''room1'' = Inl TypeError"
    using distance_is_shortest_route_length [of ?rr "''room1''" "''room1''" "''room1''"] h v'
    by blast
  show ?thesis
    using c d n v f e by (simp add: rigid0_path_room1_room6)
qed

section \<open>Properties of the planner\<close>

lemma seek_plan_global:
  "keeps_global D \<Longrightarrow> seek_plan D n g s tasks = Some (r, g') \<Longrightarrow> g' = g"
  "keeps_global D \<Longrightarrow> try_methods D n g s ms rest = Some (r, g') \<Longrightarrow> g' = g"
proof (induction D n g s tasks and D n g s ms rest arbitrary: r g' and r g' rule: seek_plan_try_methods.induct)
  case (1 D g s tasks)
  then show ?case by simp
next
  case (2 D n g s)
  then show ?case by simp
next
  case (3 D n g s t rest)
  show ?case
  proof (cases "operator_of D t")
    case None
    with "3.prems"(2) have "try_methods D n g s (methods_of D t) rest = Some (r, g')"
      by simp
    from "3.IH"(1) [OF None "3.prems"(1) this] show ?thesis .
  next
    case (Some f)
    obtain res g1 s1 where eff: "f g s = Effect res g1 s1"
      by (cases "f g s")
    have g1: "g1 = g"
      using "3.prems"(1) Some eff unfolding keeps_global_def by (metis effect.sel(2))
    show ?thesis
    proof (cases res)
      case (Inl e)
      with "3.prems"(2) Some eff g1 show ?thesis by simp
    next
      case (Inr ok)
      show ?thesis
      proof (cases ok)
        case False
        with "3.prems"(2) Some eff g1 Inr show ?thesis by simp
      next
        case True
        with "3.prems"(2) Some eff Inr obtain r1 g2
          where sub: "seek_plan D n g1 s1 rest = Some (r1, g2)" and "g' = g2"
          by (auto split: option.splits planning.splits)
        from True have ok: "ok" .
        from "3.IH"(2) [OF Some eff Inr ok "3.prems"(1) sub]
        have "g2 = g1" .
        with \<open>g' = g2\<close> g1 show ?thesis by simp
      qed
    qed
  qed
next
  case (4 D n g s rest)
  then show ?case by simp
next
  case (5 D n g s mth mths rest)
  show ?case
  proof (cases "mth g s")
    case (Inl e)
    with "5.prems" show ?thesis by simp
  next
    case (Inr res)
    show ?thesis
    proof (cases res)
      case None
      with "5.prems" "5.IH"(1) Inr show ?thesis by simp
    next
      case (Some subtasks)
      with "5.prems"(2) Inr obtain r1 g1
        where sub: "seek_plan D n g s (subtasks @ rest) = Some (r1, g1)"
        by (auto split: option.splits)
      from "5.IH"(2) [OF Inr Some "5.prems"(1) sub] have g1: "g1 = g" .
      show ?thesis
      proof (cases "r1 = Failure")
        case True
        with "5.prems"(2) Inr Some sub g1 have "try_methods D n g s mths rest = Some (r, g')"
          by simp
        from "5.IH"(3) [OF Inr Some sub [unfolded g1 True] refl refl "5.prems"(1) this]
        show ?thesis .
      next
        case False
        with "5.prems"(2) Inr Some sub g1 show ?thesis
          by (cases r1) auto
      qed
    qed
  qed
qed

lemma seek_plan_more_fuel:
  "seek_plan D n g s tasks = Some r \<Longrightarrow> seek_plan D (Suc n) g s tasks = Some r"
  "try_methods D n g s ms rest = Some r \<Longrightarrow> try_methods D (Suc n) g s ms rest = Some r"
proof (induction D n g s tasks and D n g s ms rest arbitrary: r and r rule: seek_plan_try_methods.induct)
  case (1 D g s tasks)
  then show ?case by simp
next
  case (2 D n g s)
  then show ?case by simp
next
  case (3 D n g s t rest)
  show ?case
  proof (cases "operator_of D t")
    case None
    with "3.prems" have "try_methods D n g s (methods_of D t) rest = Some r"
      by simp
    from "3.IH"(1) [OF None this] None show ?thesis by simp
  next
    case (Some f)
    obtain res g1 s1 where eff: "f g s = Effect res g1 s1"
      by (cases "f g s")
    show ?thesis
    proof (cases res)
      case (Inl e)
      with "3.prems" Some eff show ?thesis by simp
    next
      case (Inr ok)
      show ?thesis
      proof (cases ok)
        case False
        with "3.prems" Some eff Inr show ?thesis by simp
      next
        case True
        then have ok: "ok" .
        from "3.prems" Some eff Inr True obtain x
          where sub: "seek_plan D n g1 s1 rest = Some x"
          by (auto split: option.splits)
        from "3.IH"(2) [OF Some eff Inr ok sub]
        have "seek_plan D (Suc n) g1 s1 rest = Some x" .
        with "3.prems" sub Some eff Inr True show ?thesis by simp
      qed
    qed
  qed
next
  case (4 D n g s rest)
  then show ?case by simp
next
  case (5 D n g s mth mths rest)
  show ?case
  proof (cases "mth g s")
    case (Inl e)
    with "5.prems" show ?thesis by simp
  next
    case (Inr res)
    show ?thesis
    proof (cases res)
      case None
      with "5.prems" Inr have "try_methods D n g s mths rest = Some r" by simp
      from "5.IH"(1) [OF Inr None this] Inr None show ?thesis by simp
    next
      case (Some subtasks)
      with "5.prems" Inr obtain r1 g1
        where sub: "seek_plan D n g s (subtasks @ rest) = Some (r1, g1)"
        by (auto split: option.splits)
      from "5.IH"(2) [OF Inr Some sub]
      have sub': "seek_plan D (Suc n) g s (subtasks @ rest) = Some (r1, g1)" .
      show ?thesis
      proof (cases "r1 = Failure")
        case True
        with "5.prems" Inr Some sub have "try_methods D n g1 s mths rest = Some r"
          by simp
        from "5.IH"(3) [OF Inr Some sub [unfolded True] refl refl this]
        show ?thesis
          using Inr Some sub' True by simp
      next
        case False
        with "5.prems" Inr Some sub sub' show ?thesis
          by (cases r1) auto
      qed
    qed
  qed
qed

lemma seek_plan_enough_fuel:
  assumes "seek_plan D n g s tasks = Some r" "n \<le> m"
  shows "seek_plan D m g s tasks = Some r"
proof -
  have "seek_plan D (n + k) g s tasks = Some r" for k
    using assms(1) by (induction k) (auto intro: seek_plan_more_fuel(1))
  from this [of "m - n"] assms(2) show ?thesis by simp
qed

lemma execute_append:
  "execute D g s (p @ q) =
     (case execute D g s p of None \<Rightarrow> None | Some (g', s') \<Rightarrow> execute D g' s' q)"
proof (induction p arbitrary: g s)
  case Nil
  show ?case by simp
next
  case (Cons t p)
  show ?case
  proof (cases "operator_of D t")
    case None
    then show ?thesis by simp
  next
    case (Some f)
    obtain res g1 s1 where "f g s = Effect res g1 s1"
      by (cases "f g s")
    with Some Cons.IH show ?thesis
      by (cases res) auto
  qed
qed

lemma found_plan_executes:
  "keeps_global D \<Longrightarrow> seek_plan D n g s tasks = Some (Plan p, g') \<Longrightarrow> \<exists>s'. execute D g s p = Some (g, s')"
  "keeps_global D \<Longrightarrow> try_methods D n g s ms rest = Some (Plan p, g') \<Longrightarrow> \<exists>s'. execute D g s p = Some (g, s')"
proof (induction D n g s tasks and D n g s ms rest arbitrary: p g' and p g' rule: seek_plan_try_methods.induct)
  case (1 D g s tasks)
  then show ?case by simp
next
  case (2 D n g s)
  then show ?case by simp
next
  case (3 D n g s t rest)
  show ?case
  proof (cases "operator_of D t")
    case None
    with "3.prems"(2) have "try_methods D n g s (methods_of D t) rest = Some (Plan p, g')"
      by simp
    from "3.IH"(1) [OF None "3.prems"(1) this] show ?thesis .
  next
    case (Some f)
    obtain res g1 s1 where eff: "f g s = Effect res g1 s1"
      by (cases "f g s")
    have g1: "g1 = g"
      using "3.prems"(1) Some eff unfolding keeps_global_def by (metis effect.sel(2))
    show ?thesis
    proof (cases res)
      case (Inl e)
      with "3.prems"(2) Some eff show ?thesis by simp
    next
      case (Inr ok)
      show ?thesis
      proof (cases ok)
        case False
        with "3.prems"(2) Some eff Inr show ?thesis by simp
      next
        case True
        then have ok: "ok" .
        from "3.prems"(2) Some eff Inr True obtain q g2
          where sub: "seek_plan D n g1 s1 rest = Some (Plan q, g2)" and p: "p = t # q"
          by (auto split: option.splits planning.splits)
        from "3.IH"(2) [OF Some eff Inr ok "3.prems"(1) sub]
        obtain s' where "execute D g1 s1 q = Some (g1, s')" by blast
        with p Some eff Inr True g1 show ?thesis by simp
      qed
    qed
  qed
next
  case (4 D n g s rest)
  then show ?case by simp
next
  case (5 D n g s mth mths rest)
  show ?case
  proof (cases "mth g s")
    case (Inl e)
    with "5.prems" show ?thesis by simp
  next
    case (Inr res)
    show ?thesis
    proof (cases res)
      case None
      with "5.prems"(2) Inr have "try_methods D n g s mths rest = Some (Plan p, g')" by simp
      from "5.IH"(1) [OF Inr None "5.prems"(1) this] show ?thesis .
    next
      case (Some subtasks)
      with "5.prems"(2) Inr obtain r1 g1
        where sub: "seek_plan D n g s (subtasks @ rest) = Some (r1, g1)"
        by (auto split: option.splits)
      have g1: "g1 = g"
        using seek_plan_global(1) [OF "5.prems"(1) sub] .
      show ?thesis
      proof (cases r1)
        case (Raised e)
        with "5.prems"(2) Inr Some sub show ?thesis by simp
      next
        case Failure
        with "5.prems"(2) Inr Some sub g1 have "try_methods D n g s mths rest = Some (Plan p, g')"
          by simp
        from "5.IH"(3) [OF Inr Some sub [unfolded g1 Failure] refl refl "5.prems"(1) this]
        show ?thesis .
      next
        case (Plan q)
        with "5.prems"(2) Inr Some sub have "q = p" by simp
        from "5.IH"(2) [OF Inr Some "5.prems"(1) sub [unfolded Plan this]]
        show ?thesis .
      qed
    qed
  qed
qed

lemma move_rigid: "rigid_after (move rr s R a b) = rr"
  by (simp add: move_def move_body_rigid split: sum.splits)

lemma pickup_rigid: "rigid_after (pickup rr s R c) = rr"
  by (simp add: pickup_def Let_def split: sum.splits)

lemma drop_rigid: "rigid_after (drop_op rr s R c) = rr"
  by (simp add: drop_op_def drop_body_def Let_def split: sum.splits)

lemma recharge_rigid: "rigid_after (recharge rr s R) = rr"
  by (simp add: recharge_def Let_def split: sum.splits)

lemma simple_move_rigid: "rigid_after (simple_move rr s R a b) = rr"
  by (simp add: simple_move_def Let_def split: sum.splits)

lemma simple_recharge_rigid: "rigid_after (simple_recharge rr s R) = rr"
  by (simp add: simple_recharge_def Let_def)

lemma warehouse_keeps_global: "keeps_global warehouse"
  unfolding keeps_global_def warehouse_def
  by (auto simp: move_rigid pickup_rigid drop_rigid recharge_rigid split: task.splits)

lemma simple_warehouse_keeps_global: "keeps_global simple_warehouse"
  unfolding keeps_global_def simple_warehouse_def
  by (auto simp: simple_move_rigid pickup_rigid drop_rigid simple_recharge_rigid split: simple_task.splits)

lemma plan_from_projection:
  assumes "keeps_global D" "map_option fst (plan D n g s tasks) = Some r"
  shows "plan D n g s tasks = Some (r, g)"
proof -
  from assms(2) obtain g' where p: "plan D n g s tasks = Some (r, g')"
    by (cases "plan D n g s tasks") auto
  from seek_plan_global(1) [OF assms(1) p [unfolded plan_def]] p show ?thesis by simp
qed

lemma plan_enough_fuel:
  assumes "plan D n g s tasks = Some r" "n \<le> m"
  shows "plan D m g s tasks = Some r"
  using seek_plan_enough_fuel [OF assms(1) [unfolded plan_def] assms(2)] by (simp add: plan_def)

lemma move_success_battery:
  assumes "returned (move rr s R a b) = Inr True"
  shows "\<exists>x. battery s R = Some x \<and> x > COST_PER_MOVE"
  using assms
  by (auto simp: move_def move_guard_def Let_def is_at_def lookup_def
      split: sum.splits if_splits option.splits)

lemma move_low_battery:
  assumes "battery s R = Some b" "b \<le> COST_PER_MOVE"
  shows "move_guard rr s R a e = Inr False \<or> (loc s R = None \<and> move_guard rr s R a e = Inl KeyError)"
  using assms
  by (auto simp: move_guard_def Let_def is_at_def lookup_def split: option.splits)

lemma execute_global:
  "keeps_global D \<Longrightarrow> execute D g s p = Some (g', s') \<Longrightarrow> g' = g"
proof (induction p arbitrary: g s)
  case Nil
  then show ?case by simp
next
  case (Cons t p)
  from Cons.prems(2) obtain f where f: "operator_of D t = Some f"
    by (auto split: option.splits)
  obtain res g1 s1 where eff: "f g s = Effect res g1 s1"
    by (cases "f g s")
  have g1: "g1 = g"
    using Cons.prems(1) f eff unfolding keeps_global_def by (metis effect.sel(2))
  from Cons.prems(2) f eff have "execute D g1 s1 p = Some (g', s')"
    by (cases res) (auto split: if_splits)
  from Cons.IH [OF Cons.prems(1) this] g1 show ?case by simp
qed

text \<open>
  With the battery at the cost of a move and no entry \<open>loc['R1']\<close>, the guard of \<open>move\<close>
  passes the type and adjacency tests and raises \<open>KeyError\<close> in \<open>is_at\<close>: the operator
  returns no failure value.
\<close>

theorem move_without_location:
  "battery unplaced_state ''R1'' = Some 20 \<and> (20 :: int) \<le> COST_PER_MOVE \<and>
   loc unplaced_state ''R1'' = None \<and>
   move rigid0 unplaced_state ''R1'' ''room1'' ''room2'' = Effect (Inl KeyError) rigid0 unplaced_state \<and>
   returned (move rigid0 unplaced_state ''R1'' ''room1'' ''room2'') \<noteq> Inr False"
  by (simp add: unplaced_state_def low_state_def state0_def COST_PER_MOVE_def move_def move_guard_def
      is_a_def is_adjacent_def is_at_def lookup_def rigid0_def)

text \<open>
  C2, as amended. With \<open>battery[R]\<close> at most the cost of a move, \<open>move\<close> does not succeed and
  leaves the state as it was; it returns \<open>False\<close> whenever the state records a location for
  \<open>R\<close> (the guard reads \<open>loc[R]\<close> before the battery). Consequently, in every plan that \<open>plan\<close>
  returns for the warehouse domain, each \<open>move\<close> step is reached, when the steps before it
  are executed from the initial state, with a battery above the cost of a move.
\<close>

theorem move_needs_battery:
  "(battery s R = Some b \<and> b \<le> COST_PER_MOVE \<longrightarrow>
      returned (move rr s R start_loc end_loc) \<noteq> Inr True \<and>
      state_after (move rr s R start_loc end_loc) = s \<and>
      (loc s R \<noteq> None \<longrightarrow> move rr s R start_loc end_loc = Effect (Inr False) rr s)) \<and>
   (plan warehouse fuel rr init tasks = Some (Plan (pre @ Move R' a e # post), rr') \<longrightarrow>
      (\<exists>s1 x. execute warehouse rr init pre = Some (rr, s1) \<and>
         battery s1 R' = Some x \<and> x > COST_PER_MOVE))"
proof -
  have low: "returned (move rr s R start_loc end_loc) \<noteq> Inr True \<and>
      state_after (move rr s R start_loc end_loc) = s \<and>
      (loc s R \<noteq> None \<longrightarrow> move rr s R start_loc end_loc = Effect (Inr False) rr s)"
    if "battery s R = Some b \<and> b \<le> COST_PER_MOVE"
    using move_low_battery [of s R b rr start_loc end_loc] that
    by (auto simp: move_def)
  have steps: "\<exists>s1 x. execute warehouse rr init pre = Some (rr, s1) \<and>
         battery s1 R' = Some x \<and> x > COST_PER_MOVE"
    if p: "plan warehouse fuel rr init tasks = Some (Plan (pre @ Move R' a e # post), rr')"
  proof -
    from found_plan_executes(1) [OF warehouse_keeps_global p [unfolded plan_def]]
    obtain s' where run: "execute warehouse rr init (pre @ Move R' a e # post) = Some (rr, s')"
      by blast
    then obtain g1 s1 where pre: "execute warehouse rr init pre = Some (g1, s1)"
      and rest: "execute warehouse g1 s1 (Move R' a e # post) = Some (rr, s')"
      by (auto simp: execute_append split: option.splits)
    have g1: "g1 = rr"
      using execute_global [OF warehouse_keeps_global pre] .
    have "returned (move rr s1 R' a e) = Inr True"
      using rest unfolding g1
      by (cases "move rr s1 R' a e") (auto simp: warehouse_def split: sum.splits if_splits)
    from move_success_battery [OF this] pre g1 show ?thesis by blast
  qed
  show ?thesis
    using low steps by blast
qed

lemma blocked_plan_projection:
  "map_option fst (plan warehouse 20 rigid0 blocked_state [Transport ''R1'' ''c1'' ''room2'']) =
     Some (Plan [Move ''R1'' ''room2'' ''room4'', Pickup ''R1'' ''c1'',
                 Move ''R1'' ''room4'' ''room2'', Drop ''R1'' ''c1''])"
  by code_simp

lemma blocked_plan:
  "plan warehouse 20 rigid0 blocked_state [Transport ''R1'' ''c1'' ''room2''] =
     Some (Plan [Move ''R1'' ''room2'' ''room4'', Pickup ''R1'' ''c1'',
                 Move ''R1'' ''room4'' ''room2'', Drop ''R1'' ''c1''], rigid0)"
  using plan_from_projection [OF warehouse_keeps_global blocked_plan_projection] .

theorem move_needs_battery_witness:
  "battery low_state ''R1'' = Some 20 \<and> (20 :: int) \<le> COST_PER_MOVE \<and>
   loc low_state ''R1'' = Some ''room1'' \<and>
   move rigid0 low_state ''R1'' ''room1'' ''room2'' = Effect (Inr False) rigid0 low_state \<and>
   plan warehouse 20 rigid0 blocked_state [Transport ''R1'' ''c1'' ''room2''] =
     Some (Plan ([Move ''R1'' ''room2'' ''room4'', Pickup ''R1'' ''c1''] @
                 Move ''R1'' ''room4'' ''room2'' # [Drop ''R1'' ''c1'']), rigid0) \<and>
   (\<exists>s1 x. execute warehouse rigid0 blocked_state [Move ''R1'' ''room2'' ''room4'', Pickup ''R1'' ''c1''] =
              Some (rigid0, s1) \<and>
            battery s1 ''R1'' = Some x \<and> x > COST_PER_MOVE)"
proof -
  have h: "battery low_state ''R1'' = Some 20 \<and> (20 :: int) \<le> COST_PER_MOVE"
    by (simp add: low_state_def COST_PER_MOVE_def)
  have l: "loc low_state ''R1'' = Some ''room1''"
    by (simp add: low_state_def state0_def)
  have p: "plan warehouse 20 rigid0 blocked_state [Transport ''R1'' ''c1'' ''room2''] =
     Some (Plan ([Move ''R1'' ''room2'' ''room4'', Pickup ''R1'' ''c1''] @
                 Move ''R1'' ''room4'' ''room2'' # [Drop ''R1'' ''c1'']), rigid0)"
    using blocked_plan by simp
  have "move rigid0 low_state ''R1'' ''room1'' ''room2'' = Effect (Inr False) rigid0 low_state"
    using move_needs_battery [of low_state "''R1''" 20 rigid0 "''room1''" "''room2''"] h l
    by simp
  moreover have "\<exists>s1 x. execute warehouse rigid0 blocked_state [Move ''R1'' ''room2'' ''room4'', Pickup ''R1'' ''c1''] =
              Some (rigid0, s1) \<and> battery s1 ''R1'' = Some x \<and> x > COST_PER_MOVE"
    using move_needs_battery [where fuel = 20 and rr = rigid0 and init = blocked_state
        and tasks = "[Transport ''R1'' ''c1'' ''room2'']"
        and pre = "[Move ''R1'' ''room2'' ''room4'', Pickup ''R1'' ''c1'']"
        and R' = "''R1''" and a = "''room4''" and e = "''room2''"
        and post = "[Drop ''R1'' ''c1'']" and rr' = rigid0] p
    by blast
  ultimately show ?thesis
    using h l p by blast
qed

lemma transport_all_no_cargo:
  "cargo s R = None \<Longrightarrow> plan warehouse 2 rr s [Transport_all R m] = Some (Raised KeyError, rr)"
  by (simp add: plan_def numeral_2_eq_2 warehouse_def transport_all1_def lookup_def)

text \<open>
  The declared state has no cargo entry for \<open>'R2'\<close>: \<open>transport_all1\<close> reads
  \<open>state.cargo[R]\<close> first, so planning \<open>transport_all\<close> with an empty map for that robot ends
  in \<open>KeyError\<close>, not in the empty plan.
\<close>

theorem transport_all_unknown_robot:
  "cargo state0 ''R2'' = None \<and>
   plan warehouse 5 rigid0 state0 [Transport_all ''R2'' []] = Some (Raised KeyError, rigid0) \<and>
   plan warehouse 5 rigid0 state0 [Transport_all ''R2'' []] \<noteq> Some (Plan [], rigid0)"
proof -
  have c: "cargo state0 ''R2'' = None"
    by (simp add: state0_def)
  have "plan warehouse 5 rigid0 state0 [Transport_all ''R2'' []] = Some (Raised KeyError, rigid0)"
    by (rule plan_enough_fuel [OF transport_all_no_cargo [OF c]]) simp
  with c show ?thesis by simp
qed

text \<open>
  C7, as amended. A goal that the state already satisfies has the empty plan: \<open>transport\<close> of a
  container whose location is the destination, and \<open>transport_all\<close> with an empty map
  (for a robot with a cargo entry, which \<open>transport_all1\<close> reads first). Two levels of
  recursion suffice, and any deeper search returns the same.
\<close>

theorem satisfied_goal_empty_plan:
  "(loc s c = Some dest \<longrightarrow>
      (\<forall>fuel \<ge> 2. plan warehouse fuel rr s [Transport R c dest] = Some (Plan [], rr))) \<and>
   (cargo s R = Some held \<longrightarrow>
      (\<forall>fuel \<ge> 2. plan warehouse fuel rr s [Transport_all R []] = Some (Plan [], rr)))"
proof -
  have t: "plan warehouse 2 rr s [Transport R c dest] = Some (Plan [], rr)" if "loc s c = Some dest"
    using that
    by (simp add: plan_def numeral_2_eq_2 warehouse_def transport1_def transport2_def transport3_def lookup_def)
  have a: "plan warehouse 2 rr s [Transport_all R []] = Some (Plan [], rr)" if "cargo s R = Some held"
    using that
    by (simp add: plan_def numeral_2_eq_2 warehouse_def transport_all1_def transport_all2_def
        transport_all3_def lookup_def split: list.splits)
  show ?thesis
    using plan_enough_fuel [OF t] plan_enough_fuel [OF a] by blast
qed

theorem satisfied_goal_empty_plan_witness:
  "loc state0 ''c1'' = Some ''room4'' \<and>
   plan warehouse 2 rigid0 state0 [Transport ''R1'' ''c1'' ''room4''] = Some (Plan [], rigid0) \<and>
   plan warehouse 50 rigid0 state0 [Transport ''R1'' ''c1'' ''room4''] = Some (Plan [], rigid0) \<and>
   cargo state0 ''R1'' = Some [] \<and>
   plan warehouse 2 rigid0 state0 [Transport_all ''R1'' []] = Some (Plan [], rigid0) \<and>
   plan warehouse 50 rigid0 state0 [Transport_all ''R1'' []] = Some (Plan [], rigid0)"
proof -
  have l: "loc state0 ''c1'' = Some ''room4''" and c: "cargo state0 ''R1'' = Some []"
    by (simp_all add: state0_def)
  show ?thesis
    using satisfied_goal_empty_plan [of state0 "''c1''" "''room4''" rigid0 "''R1''" "[]"] l c
    by simp
qed

text \<open>
  The execution-time operator \<open>move_exec\<close> is the one function that changes the rigid
  relations: the blocked move between room2 and room4 fails and removes that adjacency.
\<close>

lemma move_exec_blocked:
  "move_exec rigid0 blocked_state ''R1'' ''room2'' ''room4'' = Effect (Inr False) rigid_blocked blocked_state"
  by (simp add: move_exec_def move_guard_def is_a_def is_adjacent_def is_at_def lookup_def rigid0_def
      blocked_state_def state0_def rigid_blocked_def COST_PER_MOVE_def)

lemma simple_plan_projection:
  "map_option fst (plan simple_warehouse 20 simple_rigid simple_state0 [Simple_transport ''R1'' ''c1'' ''room4'']) =
     Some (Plan [Simple_move ''R1'' ''room1'' ''room3'', Simple_pickup ''R1'' ''c1'',
                 Simple_recharge ''R1'', Simple_move ''R1'' ''room3'' ''room1'',
                 Simple_move ''R1'' ''room1'' ''room2'', Simple_move ''R1'' ''room2'' ''room4'',
                 Simple_drop ''R1'' ''c1''])"
  by code_simp

lemma simple_plan:
  "plan simple_warehouse 20 simple_rigid simple_state0 [Simple_transport ''R1'' ''c1'' ''room4''] =
     Some (Plan [Simple_move ''R1'' ''room1'' ''room3'', Simple_pickup ''R1'' ''c1'',
                 Simple_recharge ''R1'', Simple_move ''R1'' ''room3'' ''room1'',
                 Simple_move ''R1'' ''room1'' ''room2'', Simple_move ''R1'' ''room2'' ''room4'',
                 Simple_drop ''R1'' ''c1''], simple_rigid)"
  by (rule plan_from_projection [OF simple_warehouse_keeps_global simple_plan_projection])

theorem simple_plan_first_step:
  "plan simple_warehouse 20 simple_rigid simple_state0 [Simple_transport ''R1'' ''c1'' ''room4''] =
     Some (Plan [Simple_move ''R1'' ''room1'' ''room3'', Simple_pickup ''R1'' ''c1'',
                 Simple_recharge ''R1'', Simple_move ''R1'' ''room3'' ''room1'',
                 Simple_move ''R1'' ''room1'' ''room2'', Simple_move ''R1'' ''room2'' ''room4'',
                 Simple_drop ''R1'' ''c1''], simple_rigid) \<and>
   Simple_move ''R1'' ''room1'' ''room3'' \<noteq> Simple_move ''R1'' ''room1'' ''room2'' \<and>
   is_adjacent simple_rigid ''room1'' ''room3'' \<and> \<not> is_adjacent simple_rigid ''room2'' ''room3''"
  using simple_plan by (simp add: is_adjacent_def simple_rigid_def)

text \<open>
  C1, as amended. In the scenario of \<open>simple_warehouse_robot.py\<close> (robot in room1 with
  battery 50, container in room3, moves cost 25, rooms 1-2, 1-3 and 2-4 adjacent) the plan
  for transporting the container to room4 is: move room1 to room3, pickup, recharge, move
  room3 to room1, move room1 to room2, move room2 to room4, drop, at every sufficient
  search depth. A step between adjacent rooms is a \<open>move\<close> when the battery is above 25
  and a \<open>recharge\<close> followed by the \<open>move\<close> when it is at most 25.
\<close>

theorem simple_scenario_plan:
  "(\<forall>fuel \<ge> 20.
      plan simple_warehouse fuel simple_rigid simple_state0 [Simple_transport ''R1'' ''c1'' ''room4''] =
        Some (Plan [Simple_move ''R1'' ''room1'' ''room3'', Simple_pickup ''R1'' ''c1'',
                    Simple_recharge ''R1'', Simple_move ''R1'' ''room3'' ''room1'',
                    Simple_move ''R1'' ''room1'' ''room2'', Simple_move ''R1'' ''room2'' ''room4'',
                    Simple_drop ''R1'' ''c1''], simple_rigid)) \<and>
   (is_adjacent rr l next_loc \<and> battery s R = Some b \<longrightarrow>
      move_next1 rr s R l next_loc = Inr (if b > 25 then Some [Simple_move R l next_loc] else None) \<and>
      move_next2 rr s R l next_loc =
        Inr (if b \<le> 25 then Some [Simple_recharge R, Simple_move R l next_loc] else None))"
  using plan_enough_fuel [OF simple_plan]
  by (simp add: move_next1_def move_next2_def lookup_def)

theorem simple_scenario_plan_witness:
  "plan simple_warehouse 25 simple_rigid simple_state0 [Simple_transport ''R1'' ''c1'' ''room4''] =
     Some (Plan [Simple_move ''R1'' ''room1'' ''room3'', Simple_pickup ''R1'' ''c1'',
                 Simple_recharge ''R1'', Simple_move ''R1'' ''room3'' ''room1'',
                 Simple_move ''R1'' ''room1'' ''room2'', Simple_move ''R1'' ''room2'' ''room4'',
                 Simple_drop ''R1'' ''c1''], simple_rigid) \<and>
   is_adjacent simple_rigid ''room3'' ''room1'' \<and>
   battery (simple_state0\<lparr>battery := [''R1'' \<mapsto> 25]\<rparr>) ''R1'' = Some 25 \<and>
   move_next1 simple_rigid (simple_state0\<lparr>battery := [''R1'' \<mapsto> 25]\<rparr>) ''R1'' ''room3'' ''room1'' = Inr None \<and>
   move_next2 simple_rigid (simple_state0\<lparr>battery := [''R1'' \<mapsto> 25]\<rparr>) ''R1'' ''room3'' ''room1'' =
     Inr (Some [Simple_recharge ''R1'', Simple_move ''R1'' ''room3'' ''room1''])"
proof -
  have a: "is_adjacent simple_rigid ''room3'' ''room1''"
    by (simp add: is_adjacent_def simple_rigid_def)
  have b: "battery (simple_state0\<lparr>battery := [''R1'' \<mapsto> 25]\<rparr>) ''R1'' = Some 25"
    by simp
  show ?thesis
    using simple_scenario_plan [of simple_rigid "''room3''" "''room1''"
        "simple_state0\<lparr>battery := [''R1'' \<mapsto> 25]\<rparr>" "''R1''" 25] a b
    by simp
qed

text \<open>
  C6, where the code misses it: \<open>travel_with1\<close> computes its battery estimate before it
  tests \<open>is_a(dest, 'loc')\<close>, so for a destination that is no location of the graph
  \<open>distance\<close> applies \<open>len\<close> to \<open>False\<close> and the method raises instead of returning
  \<open>False\<close>; the planner, given such a goal, ends in that exception.
\<close>

theorem travel_with1_unknown_destination:
  "\<not> is_a rigid0 ''room10'' Location \<and>
   travel_with1 rigid0 state0 ''R1'' ''room10'' 0 [] = Inl TypeError \<and>
   map_option fst (plan warehouse 30 rigid0 state0 [Transport ''R1'' ''c1'' ''room10'']) =
     Some (Raised TypeError)"
  by code_simp

end
